theory Spec2Isabelle
  imports Main "HOL-Library.AList"
begin

section \<open>The address book of address\_book.py\<close>

text \<open>
  Python strings are modelled as \<^typ>\<open>string\<close>; a character is read as the code point of
  the same number (U+0000 to U+00FF). In this range the regular-expression class
  \<^verbatim>\<open>\d\<close> is exactly the ten characters \<^verbatim>\<open>0\<close> to \<^verbatim>\<open>9\<close>. Python integers are \<^typ>\<open>int\<close>.
  A raised exception is a value of \<open>error\<close>; a function that can raise returns
  \<open>error + 'a\<close>, and a method that mutates its object returns the object afterwards
  next to the outcome of the call.
\<close>

subsection \<open>Exceptions\<close>

datatype error =
    ValueError string
  | OverflowError string
  | FileNotFoundError
  | OtherError string

subsection \<open>Characters of the regular expressions\<close>

definition is_digit :: "char \<Rightarrow> bool" where
  \<comment> \<open>\<^verbatim>\<open>\d\<close>\<close>
  "is_digit c = (c \<in> set ''0123456789'')"

definition is_1_9 :: "char \<Rightarrow> bool" where
  \<comment> \<open>\<^verbatim>\<open>[1-9]\<close>\<close>
  "is_1_9 c = (c \<in> set ''123456789'')"

definition newline :: char where
  "newline = CHR 0x0A"

fun match_digits :: "nat \<Rightarrow> string \<Rightarrow> string option" where
  \<comment> \<open>\<^verbatim>\<open>\d{n}\<close> at the start of the string: the text after the n digits\<close>
  "match_digits 0 s = Some s"
| "match_digits (Suc n) [] = None"
| "match_digits (Suc n) (c # s) = (if is_digit c then match_digits n s else None)"

subsection \<open>Phone\<close>

definition Phone_validate :: "string \<Rightarrow> bool" where
  \<comment> \<open>\<^verbatim>\<open>re.match(r'^\d{10}$', value) is not None\<close>; without MULTILINE, \<^verbatim>\<open>$\<close> matches
      at the end of the string and just before a newline that ends the string\<close>
  "Phone_validate v =
     (case match_digits 10 v of
        None \<Rightarrow> False
      | Some rest \<Rightarrow> rest = [] \<or> rest = [newline])"

definition Phone :: "string \<Rightarrow> error + string" where
  "Phone v =
     (if \<not> Phone_validate v
      then Inl (ValueError ''Phone number must be a string of 10 digits.'')
      else Inr v)"

subsection \<open>Record\<close>

record Record =
  name :: string
  phones :: "string list"
  birthday :: "string option"

definition Record_init :: "string \<Rightarrow> Record" where
  "Record_init n = \<lparr>name = n, phones = [], birthday = None\<rparr>"

definition find_phone :: "string \<Rightarrow> Record \<Rightarrow> string option" where
  \<comment> \<open>the first stored phone whose value equals the argument\<close>
  "find_phone phone_number r = find (\<lambda>p. p = phone_number) (phones r)"

definition add_phone :: "string \<Rightarrow> Record \<Rightarrow> (error + unit) \<times> Record" where
  "add_phone phone_number r =
     (case Phone phone_number of
        Inl e \<Rightarrow> (Inl e, r)
      | Inr p \<Rightarrow> (Inr (), r\<lparr>phones := phones r @ [p]\<rparr>))"

definition remove_phone :: "string \<Rightarrow> Record \<Rightarrow> (error + unit) \<times> Record" where
  \<comment> \<open>\<^verbatim>\<open>list.remove\<close> deletes the first element equal to the object found\<close>
  "remove_phone phone_number r =
     (case find_phone phone_number r of
        Some p \<Rightarrow> (Inr (), r\<lparr>phones := remove1 p (phones r)\<rparr>)
      | None \<Rightarrow> (Inl (ValueError ''Phone number not found.''), r))"

definition edit_phone :: "string \<Rightarrow> string \<Rightarrow> Record \<Rightarrow> (error + unit) \<times> Record" where
  "edit_phone old_phone new_phone r =
     (if \<not> Phone_validate new_phone
      then (Inl (ValueError ''New phone number must be a string of 10 digits.''), r)
      else case find_phone old_phone r of
        Some p \<Rightarrow>
          (case remove_phone old_phone r of
             (Inl e, r1) \<Rightarrow> (Inl e, r1)
           | (Inr u, r1) \<Rightarrow> add_phone new_phone r1)
      | None \<Rightarrow> (Inl (ValueError ''Old phone number not found.''), r))"

subsection \<open>AddressBook\<close>

text \<open>
  The \<^verbatim>\<open>UserDict\<close> keeps its entries in insertion order: the book is the list of
  its (key, record) pairs. Storing under a key that is present replaces the value in
  place, storing under a new key appends, which is \<^const>\<open>AList.update\<close>.
\<close>

type_synonym AddressBook = "(string \<times> Record) list"

definition AddressBook_init :: AddressBook where
  "AddressBook_init = []"

definition add_record :: "Record \<Rightarrow> AddressBook \<Rightarrow> AddressBook" where
  \<comment> \<open>\<^verbatim>\<open>self.data[record.name.value] = record\<close>\<close>
  "add_record record book = AList.update (name record) record book"

subsection \<open>Calendar dates (the standard library's \<^verbatim>\<open>datetime.date\<close>)\<close>

text \<open>
  The proleptic Gregorian calendar of \<^verbatim>\<open>datetime\<close>, after the library's own
  Python implementation: a date stores year, month and day, its ordinal counts days from
  0001-01-01 (ordinal 1), and all arithmetic goes through the ordinal.
\<close>

definition MINYEAR :: int where
  "MINYEAR = 1"

definition MAXYEAR :: int where
  "MAXYEAR = 9999"

definition MAXORDINAL :: int where
  \<comment> \<open>\<^verbatim>\<open>date(9999, 12, 31).toordinal()\<close>\<close>
  "MAXORDINAL = 3652059"

definition DAYS_IN_MONTH :: "int list" where
  "DAYS_IN_MONTH = [-1, 31, 28, 31, 30, 31, 30, 31, 31, 30, 31, 30, 31]"

definition DAYS_BEFORE_MONTH :: "int list" where
  "DAYS_BEFORE_MONTH = [-1, 0, 31, 59, 90, 120, 151, 181, 212, 243, 273, 304, 334]"

definition is_leap :: "int \<Rightarrow> bool" where
  "is_leap y = (y mod 4 = 0 \<and> (y mod 100 \<noteq> 0 \<or> y mod 400 = 0))"

definition days_before_year :: "int \<Rightarrow> int" where
  "days_before_year y = (let y1 = y - 1 in y1 * 365 + y1 div 4 - y1 div 100 + y1 div 400)"

definition days_in_month :: "int \<Rightarrow> int \<Rightarrow> int" where
  "days_in_month y m = (if m = 2 \<and> is_leap y then 29 else DAYS_IN_MONTH ! nat m)"

definition days_before_month :: "int \<Rightarrow> int \<Rightarrow> int" where
  "days_before_month y m = DAYS_BEFORE_MONTH ! nat m + (if m > 2 \<and> is_leap y then 1 else 0)"

definition ymd2ord :: "int \<Rightarrow> int \<Rightarrow> int \<Rightarrow> int" where
  "ymd2ord y m d = days_before_year y + days_before_month y m + d"

definition ord2ymd :: "int \<Rightarrow> int \<times> int \<times> int" where
  "ord2ymd n0 =
     (let n = n0 - 1;
          n400 = n div 146097; n = n mod 146097;
          y = n400 * 400 + 1;
          n100 = n div 36524; n = n mod 36524;
          n4 = n div 1461; n = n mod 1461;
          n1 = n div 365; n = n mod 365;
          y = y + n100 * 100 + n4 * 4 + n1
      in if n1 = 4 \<or> n100 = 4 then (y - 1, 12, 31)
         else
           let leapyear = (n1 = 3 \<and> (n4 \<noteq> 24 \<or> n100 = 3));
               m = (n + 50) div 32;
               preceding = DAYS_BEFORE_MONTH ! nat m + (if m > 2 \<and> leapyear then 1 else 0)
           in if preceding > n
              then let m = m - 1;
                       preceding = preceding -
                         (DAYS_IN_MONTH ! nat m + (if m = 2 \<and> leapyear then 1 else 0))
                   in (y, m, n - preceding + 1)
              else (y, m, n - preceding + 1))"

record date =
  year :: int
  month :: int
  day :: int

definition date_new :: "int \<Rightarrow> int \<Rightarrow> int \<Rightarrow> error + date" where
  \<comment> \<open>the constructor \<^verbatim>\<open>date(year, month, day)\<close> with its range checks\<close>
  "date_new y m d =
     (if \<not> (MINYEAR \<le> y \<and> y \<le> MAXYEAR) then Inl (ValueError ''year is out of range'')
      else if \<not> (1 \<le> m \<and> m \<le> 12) then Inl (ValueError ''month must be in 1..12'')
      else if \<not> (1 \<le> d \<and> d \<le> days_in_month y m)
        then Inl (ValueError ''day is out of range for month'')
      else Inr \<lparr>year = y, month = m, day = d\<rparr>)"

definition date_replace_year :: "date \<Rightarrow> int \<Rightarrow> error + date" where
  \<comment> \<open>\<^verbatim>\<open>d.replace(year=y)\<close>: a new date built by the constructor\<close>
  "date_replace_year dt y = date_new y (month dt) (day dt)"

definition toordinal :: "date \<Rightarrow> int" where
  "toordinal dt = ymd2ord (year dt) (month dt) (day dt)"

definition fromordinal :: "int \<Rightarrow> error + date" where
  "fromordinal n = (case ord2ymd n of (y, m, d) \<Rightarrow> date_new y m d)"

definition date_lt :: "date \<Rightarrow> date \<Rightarrow> bool" where
  \<comment> \<open>\<^verbatim>\<open>a < b\<close>: the tuples (year, month, day) compared\<close>
  "date_lt a b =
     (year a < year b \<or>
      (year a = year b \<and> (month a < month b \<or> (month a = month b \<and> day a < day b))))"

definition date_sub_days :: "date \<Rightarrow> date \<Rightarrow> int" where
  \<comment> \<open>\<^verbatim>\<open>(a - b).days\<close>\<close>
  "date_sub_days a b = toordinal a - toordinal b"

definition date_add_days :: "date \<Rightarrow> int \<Rightarrow> error + date" where
  \<comment> \<open>\<^verbatim>\<open>d + timedelta(days=k)\<close>\<close>
  "date_add_days dt k =
     (let n = toordinal dt + k
      in if 0 < n \<and> n \<le> MAXORDINAL then fromordinal n
         else Inl (OverflowError ''date value out of range''))"

definition weekday :: "date \<Rightarrow> int" where
  \<comment> \<open>Monday is 0, Sunday is 6\<close>
  "weekday dt = (toordinal dt + 6) mod 7"

subsection \<open>Parsing and printing \<^verbatim>\<open>%d.%m.%Y\<close>\<close>

text \<open>
  \<^verbatim>\<open>datetime.strptime\<close> turns the format into one regular expression and matches it at
  the start of the string:
  \<^verbatim>\<open>(?P<d>3[0-1]|[1-2]\d|0[1-9]|[1-9]| [1-9])\.(?P<m>1[0-2]|0[1-9]|[1-9])\.(?P<Y>\d\d\d\d)\<close>.
  An alternative of a group yields the text it matched and the text after it; the
  alternatives of a group are tried in the order written, and the first way to match the
  whole expression is the match.
\<close>

definition alt1 :: "(char \<Rightarrow> bool) \<Rightarrow> string \<Rightarrow> (string \<times> string) list" where
  \<comment> \<open>one character of a class\<close>
  "alt1 p s = (case s of c # r \<Rightarrow> if p c then [([c], r)] else [] | [] \<Rightarrow> [])"

definition alt2 ::
  "(char \<Rightarrow> bool) \<Rightarrow> (char \<Rightarrow> bool) \<Rightarrow> string \<Rightarrow> (string \<times> string) list" where
  \<comment> \<open>two characters, each of its class\<close>
  "alt2 p q s =
     (case s of
        c1 # c2 # r \<Rightarrow> if p c1 \<and> q c2 then [([c1, c2], r)] else []
      | _ \<Rightarrow> [])"

definition re_d :: "string \<Rightarrow> (string \<times> string) list" where
  "re_d s =
     alt2 (\<lambda>c. c = CHR ''3'') (\<lambda>c. c \<in> set ''01'') s @
     alt2 (\<lambda>c. c \<in> set ''12'') is_digit s @
     alt2 (\<lambda>c. c = CHR ''0'') is_1_9 s @
     alt1 is_1_9 s @
     alt2 (\<lambda>c. c = CHR '' '') is_1_9 s"

definition re_m :: "string \<Rightarrow> (string \<times> string) list" where
  "re_m s =
     alt2 (\<lambda>c. c = CHR ''1'') (\<lambda>c. c \<in> set ''012'') s @
     alt2 (\<lambda>c. c = CHR ''0'') is_1_9 s @
     alt1 is_1_9 s"

definition re_Y :: "string \<Rightarrow> (string \<times> string) list" where
  "re_Y s = (case match_digits 4 s of None \<Rightarrow> [] | Some r \<Rightarrow> [(take 4 s, r)])"

definition re_dot :: "string \<Rightarrow> string list" where
  "re_dot s = (case s of c # r \<Rightarrow> if c = CHR ''.'' then [r] else [] | [] \<Rightarrow> [])"

definition dmy_matches :: "string \<Rightarrow> (string \<times> string \<times> string \<times> string) list" where
  \<comment> \<open>every way to match, in the order the backtracking search meets them:
      the groups d, m, Y and the text left over\<close>
  "dmy_matches s =
     [(d, m, y, rest).
        (d, r1) \<leftarrow> re_d s, r2 \<leftarrow> re_dot r1,
        (m, r3) \<leftarrow> re_m r2, r4 \<leftarrow> re_dot r3,
        (y, rest) \<leftarrow> re_Y r4]"

definition digit_value :: "char \<Rightarrow> int" where
  "digit_value c = int (of_char c) - 48"

definition int_of_str :: "string \<Rightarrow> int" where
  \<comment> \<open>\<^verbatim>\<open>int(s)\<close> on a matched group: decimal digits, after a blank in one alternative of d\<close>
  "int_of_str s =
     foldl (\<lambda>a c. 10 * a + digit_value c) 0 (dropWhile (\<lambda>c. c = CHR '' '') s)"

definition strptime_dmy :: "string \<Rightarrow> error + date" where
  \<comment> \<open>\<^verbatim>\<open>datetime.strptime(s, "%d.%m.%Y").date()\<close>\<close>
  "strptime_dmy s =
     (case dmy_matches s of
        [] \<Rightarrow> Inl (ValueError ''time data does not match format'')
      | (d, m, y, rest) # _ \<Rightarrow>
          if rest \<noteq> [] then Inl (ValueError ''unconverted data remains'')
          else date_new (int_of_str y) (int_of_str m) (int_of_str d))"

definition digit_char :: "int \<Rightarrow> char" where
  "digit_char n = ''0123456789'' ! nat n"

definition pad2 :: "int \<Rightarrow> string" where
  "pad2 n = [digit_char (n div 10), digit_char (n mod 10)]"

definition pad4 :: "int \<Rightarrow> string" where
  "pad4 n =
     [digit_char (n div 1000), digit_char (n div 100 mod 10),
      digit_char (n div 10 mod 10), digit_char (n mod 10)]"

definition strftime_dmy :: "date \<Rightarrow> string" where
  \<comment> \<open>\<^verbatim>\<open>d.strftime("%d.%m.%Y")\<close>: day and month zero-padded to two digits, the year
      to four (the library's table of format codes: 0001, ..., 9999)\<close>
  "strftime_dmy dt = pad2 (day dt) @ ''.'' @ pad2 (month dt) @ ''.'' @ pad4 (year dt)"

subsection \<open>Birthday\<close>

definition Birthday_validate :: "string \<Rightarrow> error + bool" where
  \<comment> \<open>only \<^verbatim>\<open>ValueError\<close> is caught\<close>
  "Birthday_validate v =
     (case strptime_dmy v of
        Inr dt \<Rightarrow> Inr True
      | Inl (ValueError msg) \<Rightarrow> Inr False
      | Inl e \<Rightarrow> Inl e)"

definition Birthday :: "string \<Rightarrow> error + string" where
  "Birthday v =
     (case Birthday_validate v of
        Inl e \<Rightarrow> Inl e
      | Inr ok \<Rightarrow>
          if \<not> ok then Inl (ValueError ''Invalid date format. Use DD.MM.YYYY'')
          else Inr v)"

definition add_birthday :: "string \<Rightarrow> Record \<Rightarrow> (error + unit) \<times> Record" where
  "add_birthday v r =
     (case Birthday v of
        Inl e \<Rightarrow> (Inl e, r)
      | Inr b \<Rightarrow> (Inr (), r\<lparr>birthday := Some b\<rparr>))"

subsection \<open>Upcoming birthdays\<close>

text \<open>An element of the result: the dictionary with the keys \<^verbatim>\<open>name\<close> and \<^verbatim>\<open>congratulate_on\<close>.\<close>

record entry =
  entry_name :: string
  congratulate_on :: string

definition upcoming_of_record :: "date \<Rightarrow> Record \<Rightarrow> error + entry option" where
  \<comment> \<open>the body of the loop for one record: the entry it appends, if any\<close>
  "upcoming_of_record today record =
     (case birthday record of
        None \<Rightarrow> Inr None
      | Some v \<Rightarrow>
          (case strptime_dmy v of
             Inl e \<Rightarrow> Inl e
           | Inr bday \<Rightarrow>
               (case date_replace_year bday (year today) of
                  Inl e \<Rightarrow> Inl e
                | Inr bday_this_year \<Rightarrow>
                    (case (if date_lt bday_this_year today
                           then date_replace_year bday_this_year (year today + 1)
                           else Inr bday_this_year) of
                       Inl e \<Rightarrow> Inl e
                     | Inr bday_this_year \<Rightarrow>
                         let delta = date_sub_days bday_this_year today
                         in if 0 \<le> delta \<and> delta < 7
                            then
                              (case (if weekday bday_this_year \<in> {5, 6}
                                     then date_add_days bday_this_year
                                            (7 - weekday bday_this_year)
                                     else Inr bday_this_year) of
                                 Inl e \<Rightarrow> Inl e
                               | Inr greeting_day \<Rightarrow>
                                   Inr (Some \<lparr>entry_name = name record,
                                              congratulate_on = strftime_dmy greeting_day\<rparr>))
                            else Inr None))))"

fun upcoming_loop :: "date \<Rightarrow> Record list \<Rightarrow> entry list \<Rightarrow> error + entry list" where
  \<comment> \<open>\<^verbatim>\<open>for record in self.data.values()\<close>, with the list built so far\<close>
  "upcoming_loop today [] upcoming_birthdays = Inr upcoming_birthdays"
| "upcoming_loop today (record # records) upcoming_birthdays =
     (case upcoming_of_record today record of
        Inl e \<Rightarrow> Inl e
      | Inr None \<Rightarrow> upcoming_loop today records upcoming_birthdays
      | Inr (Some x) \<Rightarrow> upcoming_loop today records (upcoming_birthdays @ [x]))"

definition get_upcoming_birthdays :: "date \<Rightarrow> AddressBook \<Rightarrow> error + entry list" where
  \<comment> \<open>\<^verbatim>\<open>today\<close> is what \<^verbatim>\<open>datetime.now().date()\<close> returned\<close>
  "get_upcoming_birthdays today book = upcoming_loop today (map snd book) []"

subsection \<open>Persistence\<close>

text \<open>
  The files: a path holds a regular file with its bytes, or something that
  \<^verbatim>\<open>open\<close> refuses with an error (a directory, a file without permission); a path
  not in the map does not exist. \<^verbatim>\<open>pickle.dump\<close> and \<^verbatim>\<open>pickle.load\<close> belong to the
  standard library and are parameters of the two functions.
\<close>

type_synonym bytes = "nat list"

datatype node = Regular bytes | Refused error

type_synonym files = "string \<rightharpoonup> node"

definition save_data ::
  "(AddressBook \<Rightarrow> bytes) \<Rightarrow> AddressBook \<Rightarrow> string \<Rightarrow> files \<Rightarrow> (error + unit) \<times> files" where
  \<comment> \<open>\<^verbatim>\<open>open(filename, "wb")\<close> creates or truncates the file\<close>
  "save_data pickle_dump book filename fs =
     (case fs filename of
        Some (Refused e) \<Rightarrow> (Inl e, fs)
      | _ \<Rightarrow> (Inr (), fs(filename \<mapsto> Regular (pickle_dump book))))"

definition open_rb :: "string \<Rightarrow> files \<Rightarrow> error + bytes" where
  "open_rb filename fs =
     (case fs filename of
        None \<Rightarrow> Inl FileNotFoundError
      | Some (Refused e) \<Rightarrow> Inl e
      | Some (Regular bs) \<Rightarrow> Inr bs)"

definition load_data ::
  "(bytes \<Rightarrow> error + AddressBook) \<Rightarrow> string \<Rightarrow> files \<Rightarrow> error + AddressBook" where
  \<comment> \<open>the \<^verbatim>\<open>try\<close> covers both \<^verbatim>\<open>open\<close> and \<^verbatim>\<open>pickle.load\<close>\<close>
  "load_data pickle_load filename fs =
     (case (case open_rb filename fs of Inl e \<Rightarrow> Inl e | Inr bs \<Rightarrow> pickle_load bs) of
        Inl FileNotFoundError \<Rightarrow> Inr AddressBook_init
      | Inl e \<Rightarrow> Inl e
      | Inr book \<Rightarrow> Inr book)"

section \<open>The statements to compare with\<close>

subsection \<open>The upcoming birthdays, as the specification words them\<close>

definition spec_birthday_date :: "date \<Rightarrow> date \<Rightarrow> date" where
  \<comment> \<open>the birthday's month and day placed in the current year, or in the next year
      when that date is strictly before today\<close>
  "spec_birthday_date today bday =
     (let this_year = \<lparr>year = year today, month = month bday, day = day bday\<rparr>
      in if date_lt this_year today then this_year\<lparr>year := year today + 1\<rparr>
         else this_year)"

definition spec_days_ahead :: "date \<Rightarrow> date \<Rightarrow> int" where
  \<comment> \<open>days from today to the date; today is 0\<close>
  "spec_days_ahead today t = toordinal t - toordinal today"

definition spec_plus_days :: "date \<Rightarrow> int \<Rightarrow> date" where
  \<comment> \<open>the date so many days later\<close>
  "spec_plus_days t k =
     (case ord2ymd (toordinal t + k) of (y, m, d) \<Rightarrow> \<lparr>year = y, month = m, day = d\<rparr>)"

definition spec_greeting_day :: "date \<Rightarrow> date" where
  \<comment> \<open>a date on Saturday (5) or Sunday (6) moves to the following Monday, by 7 minus
      the weekday\<close>
  "spec_greeting_day t =
     (if weekday t = 5 \<or> weekday t = 6 then spec_plus_days t (7 - weekday t) else t)"

definition spec_entry :: "date \<Rightarrow> Record \<Rightarrow> entry option" where
  "spec_entry today r =
     (case birthday r of
        None \<Rightarrow> None
      | Some v \<Rightarrow>
          (case strptime_dmy v of
             Inl e \<Rightarrow> None
           | Inr bday \<Rightarrow>
               let t = spec_birthday_date today bday
               in if 0 \<le> spec_days_ahead today t \<and> spec_days_ahead today t \<le> 6
                  then Some \<lparr>entry_name = name r,
                             congratulate_on = strftime_dmy (spec_greeting_day t)\<rparr>
                  else None))"

definition spec_upcoming :: "date \<Rightarrow> AddressBook \<Rightarrow> entry list" where
  \<comment> \<open>one entry for each record within the window, in the order of the book\<close>
  "spec_upcoming today book = List.map_filter (spec_entry today) (map snd book)"

subsection \<open>The texts of a date\<close>

definition spec_date_exists :: "int \<Rightarrow> int \<Rightarrow> int \<Rightarrow> bool" where
  \<comment> \<open>an existing calendar date of the years 1 to 9999\<close>
  "spec_date_exists y m d =
     (1 \<le> y \<and> y \<le> 9999 \<and> 1 \<le> m \<and> m \<le> 12 \<and> 1 \<le> d \<and> d \<le> days_in_month y m)"

definition day_texts :: "int \<Rightarrow> string list" where
  \<comment> \<open>two digits; below 10 also the digit alone, and the digit after a blank\<close>
  "day_texts d =
     pad2 d # (if d < 10 then [[digit_char d], [CHR '' '', digit_char d]] else [])"

definition month_texts :: "int \<Rightarrow> string list" where
  \<comment> \<open>two digits; below 10 also the digit alone\<close>
  "month_texts m = pad2 m # (if m < 10 then [[digit_char m]] else [])"

definition date_texts :: "int \<Rightarrow> int \<Rightarrow> int \<Rightarrow> string list" where
  \<comment> \<open>day, month and a year of four digits, separated by dots\<close>
  "date_texts y m d =
     [ds @ ''.'' @ ms @ ''.'' @ pad4 y. ds \<leftarrow> day_texts d, ms \<leftarrow> month_texts m]"

section \<open>Properties\<close>

subsection \<open>Phone numbers\<close>

lemma match_digits_Some:
  "match_digits n s = Some rest \<longleftrightarrow>
     (\<exists>ds. s = ds @ rest \<and> length ds = n \<and> (\<forall>c\<in>set ds. is_digit c))"
proof (induction n s rule: match_digits.induct)
  case (1 s)
  show ?case by simp
next
  case (2 n)
  show ?case by simp
next
  case (3 n c s)
  show ?case
  proof (cases "is_digit c")
    case True
    with 3 show ?thesis
      by (auto simp: length_Suc_conv Cons_eq_append_conv)
  next
    case False
    then show ?thesis
      by (auto simp: length_Suc_conv Cons_eq_append_conv)
  qed
qed

text \<open>
  What the pattern accepts: ten digits, and ten digits followed by one newline.
\<close>

lemma Phone_validate_iff:
  "Phone_validate v \<longleftrightarrow>
     (\<exists>ds. length ds = 10 \<and> (\<forall>c\<in>set ds. is_digit c) \<and> (v = ds \<or> v = ds @ [newline]))"
proof (cases "match_digits 10 v")
  case None
  have "\<not> (\<exists>ds rest. v = ds @ rest \<and> length ds = 10 \<and> (\<forall>c\<in>set ds. is_digit c))"
    using None match_digits_Some [of 10 v] by auto
  then have "\<not> (\<exists>ds. length ds = 10 \<and> (\<forall>c\<in>set ds. is_digit c) \<and>
      (v = ds \<or> v = ds @ [newline]))"
    by (metis append_Nil2)
  with None show ?thesis
    by (simp add: Phone_validate_def)
next
  case (Some rest)
  then obtain ds where ds: "v = ds @ rest" "length ds = 10" "\<forall>c\<in>set ds. is_digit c"
    using match_digits_Some [of 10 v rest] by auto
  have "Phone_validate v \<longleftrightarrow> rest = [] \<or> rest = [newline]"
    using Some by (simp add: Phone_validate_def)
  also have "\<dots> \<longleftrightarrow> (\<exists>es. length es = 10 \<and> (\<forall>c\<in>set es. is_digit c) \<and>
      (v = es \<or> v = es @ [newline]))"
    using ds by auto
  finally show ?thesis .
qed

text \<open>
  C4. The claim: the phone validator returns true exactly for the strings of ten ASCII
  digits, and false for every string of another length. The pattern ends in
  \<^verbatim>\<open>$\<close>, which also matches before a final newline: the string of ten digits and a
  newline has eleven characters, its last character is no digit, and the validator
  returns true on it.
\<close>

theorem Phone_validate_trailing_newline:
  "Phone_validate (''1234567890'' @ [newline]) \<and>
   length (''1234567890'' @ [newline]) = 11 \<and>
   \<not> is_digit newline \<and>
   Phone (''1234567890'' @ [newline]) = Inr (''1234567890'' @ [newline])"
  by (simp add: Phone_def Phone_validate_def is_digit_def newline_def eval_nat_numeral)

subsection \<open>Editing a phone\<close>

lemma find_phone_Some: "find_phone p r = Some q \<Longrightarrow> q = p \<and> p \<in> set (phones r)"
  by (auto simp: find_phone_def find_Some_iff)

lemma find_phone_None: "find_phone p r = None \<longleftrightarrow> p \<notin> set (phones r)"
  by (auto simp: find_phone_def find_None_iff)

text \<open>
  C5. \<^verbatim>\<open>edit_phone\<close> is atomic: when the new number fails the phone validation, the call
  raises the validation error and the record afterwards is the record before; the phone
  sequence is unchanged, and the old number, if it was present, still is.
\<close>

theorem edit_phone_invalid_new_atomic:
  assumes "\<not> Phone_validate new_phone"
  shows "edit_phone old_phone new_phone r =
           (Inl (ValueError ''New phone number must be a string of 10 digits.''), r) \<and>
         phones (snd (edit_phone old_phone new_phone r)) = phones r \<and>
         (old_phone \<in> set (phones r) \<longrightarrow>
            old_phone \<in> set (phones (snd (edit_phone old_phone new_phone r))))"
  using assms by (simp add: edit_phone_def)

theorem edit_phone_invalid_new_atomic_witness:
  "\<not> Phone_validate ''123'' \<and>
   edit_phone ''0501234567'' ''123''
     \<lparr>name = ''Ann'', phones = [''0501234567''], birthday = None\<rparr> =
     (Inl (ValueError ''New phone number must be a string of 10 digits.''),
      \<lparr>name = ''Ann'', phones = [''0501234567''], birthday = None\<rparr>)"
proof -
  have h: "\<not> Phone_validate ''123''"
    by (simp add: Phone_validate_def is_digit_def eval_nat_numeral)
  show ?thesis
    using h edit_phone_invalid_new_atomic [OF h] by simp
qed

text \<open>
  C8. When the old number is present and the new one passes the validation,
  \<^verbatim>\<open>edit_phone(old, new)\<close> succeeds and leaves the record that \<^verbatim>\<open>remove_phone(old)\<close>
  followed by \<^verbatim>\<open>add_phone(new)\<close> leaves: the first occurrence of the old number is
  removed and the new number is appended at the end.
\<close>

theorem edit_phone_is_remove_then_add:
  assumes "old_phone \<in> set (phones r)" and "Phone_validate new_phone"
  shows "fst (remove_phone old_phone r) = Inr () \<and>
         edit_phone old_phone new_phone r =
           add_phone new_phone (snd (remove_phone old_phone r)) \<and>
         edit_phone old_phone new_phone r =
           (Inr (), r\<lparr>phones := remove1 old_phone (phones r) @ [new_phone]\<rparr>)"
  using assms
  by (auto simp: edit_phone_def remove_phone_def add_phone_def Phone_def find_phone_None
      dest: find_phone_Some split: option.splits)

theorem edit_phone_is_remove_then_add_witness:
  "''0501234567'' \<in> set [''0501234567'', ''0670000000'', ''0501234567''] \<and>
   Phone_validate ''0991112233'' \<and>
   edit_phone ''0501234567'' ''0991112233''
     \<lparr>name = ''Ann'', phones = [''0501234567'', ''0670000000'', ''0501234567''],
      birthday = None\<rparr> =
     (Inr (), \<lparr>name = ''Ann'', phones = [''0670000000'', ''0501234567'', ''0991112233''],
      birthday = None\<rparr>)"
proof -
  let ?r = "\<lparr>name = ''Ann'', phones = [''0501234567'', ''0670000000'', ''0501234567''],
             birthday = None\<rparr>"
  have v: "Phone_validate ''0991112233''"
    by (simp add: Phone_validate_def is_digit_def eval_nat_numeral)
  have m: "''0501234567'' \<in> set (phones ?r)"
    by simp
  have "edit_phone ''0501234567'' ''0991112233'' ?r =
      (Inr (), ?r\<lparr>phones := remove1 ''0501234567'' (phones ?r) @ [''0991112233'']\<rparr>)"
    using edit_phone_is_remove_then_add [OF m v] by (elim conjE)
  with v show ?thesis
    by simp
qed

subsection \<open>Adding records\<close>

lemma filter_update_key:
  "distinct (map fst al) \<Longrightarrow> filter (\<lambda>kv. fst kv = k) (AList.update k v al) = [(k, v)]"
proof (induction al)
  case Nil
  show ?case by simp
next
  case (Cons a al)
  obtain k' v' where a: "a = (k', v')" by (cases a)
  show ?case
  proof (cases "k' = k")
    case True
    with Cons.prems a have "k \<notin> fst ` set al" by simp
    then have "filter (\<lambda>kv. fst kv = k) al = []"
      by (auto simp: filter_empty_conv)
    with True a show ?thesis by simp
  next
    case False
    with Cons a show ?thesis by simp
  qed
qed

text \<open>
  C9. In a book whose entries have different names, adding a record and then a second
  record of the same name leaves exactly one entry under that name, the second record
  with its phones and birthday, and the entries still have different names. The empty
  book has no two entries of one name, and \<^verbatim>\<open>add_record\<close> keeps it so.
\<close>

theorem add_record_twice_same_name:
  assumes "distinct (map fst book)" and "name r1 = name r2"
  shows "filter (\<lambda>kv. fst kv = name r2) (add_record r2 (add_record r1 book)) =
           [(name r2, r2)] \<and>
         map_of (add_record r2 (add_record r1 book)) (name r2) = Some r2 \<and>
         distinct (map fst (add_record r2 (add_record r1 book))) \<and>
         distinct (map fst (add_record r1 book)) \<and>
         distinct (map fst AddressBook_init)"
  using assms
  by (simp add: add_record_def AddressBook_init_def distinct_update filter_update_key
      update_conv')

theorem add_record_twice_same_name_witness:
  "distinct (map fst [(''Bob'', \<lparr>name = ''Bob'', phones = [], birthday = None\<rparr>)]) \<and>
   filter (\<lambda>kv. fst kv = ''Ann'')
     (add_record \<lparr>name = ''Ann'', phones = [''0991112233''], birthday = Some ''01.02.1990''\<rparr>
        (add_record \<lparr>name = ''Ann'', phones = [''0501234567''], birthday = None\<rparr>
           [(''Bob'', \<lparr>name = ''Bob'', phones = [], birthday = None\<rparr>)])) =
     [(''Ann'', \<lparr>name = ''Ann'', phones = [''0991112233''], birthday = Some ''01.02.1990''\<rparr>)]"
  using add_record_twice_same_name
    [of "[(''Bob'', \<lparr>name = ''Bob'', phones = [], birthday = None\<rparr>)]"
        "\<lparr>name = ''Ann'', phones = [''0501234567''], birthday = None\<rparr>"
        "\<lparr>name = ''Ann'', phones = [''0991112233''], birthday = Some ''01.02.1990''\<rparr>"]
  by simp

subsection \<open>The calendar: a date from its ordinal and back\<close>

lemma int_div_mod_unique:
  fixes x k m r :: int
  assumes "x = k * m + r" "0 \<le> r" "r < k"
  shows "x div k = m \<and> x mod k = r"
  using assms by simp

lemma days_before_year_cycle:
  assumes "0 \<le> a" "a \<le> 3" "0 \<le> b" "b \<le> 24" "0 \<le> c" "c \<le> 3"
  shows "days_before_year (400 * q + 100 * a + 4 * b + c + 1) =
           146097 * q + 36524 * a + 1461 * b + 365 * c"
proof -
  let ?y = "400 * q + 100 * a + 4 * b + c"
  have d4: "?y div 4 = 100 * q + 25 * a + b"
    using int_div_mod_unique [of ?y 4 "100 * q + 25 * a + b" c] assms by simp
  have d100: "?y div 100 = 4 * q + a"
    using int_div_mod_unique [of ?y 100 "4 * q + a" "4 * b + c"] assms by simp
  have d400: "?y div 400 = q"
    using int_div_mod_unique [of ?y 400 q "100 * a + 4 * b + c"] assms by simp
  show ?thesis
    unfolding days_before_year_def Let_def
    using d4 d100 d400 by simp
qed

lemma is_leap_cycle:
  assumes "0 \<le> a" "a \<le> 3" "0 \<le> b" "b \<le> 24" "0 \<le> c" "c \<le> 3"
  shows "is_leap (400 * q + 100 * a + 4 * b + c + 1) \<longleftrightarrow> c = 3 \<and> (b \<noteq> 24 \<or> a = 3)"
proof -
  let ?y = "400 * q + 100 * a + 4 * b + c + 1"
  have m4: "?y mod 4 = (c + 1) mod 4"
  proof -
    have "?y = (c + 1) + 4 * (100 * q + 25 * a + b)" by simp
    then show ?thesis by (simp only: mod_mult_self2)
  qed
  have m100: "?y mod 100 = (4 * b + c + 1) mod 100"
  proof -
    have "?y = (4 * b + c + 1) + 100 * (4 * q + a)" by simp
    then show ?thesis by (simp only: mod_mult_self2)
  qed
  have m400: "?y mod 400 = (100 * a + 4 * b + c + 1) mod 400"
  proof -
    have "?y = (100 * a + 4 * b + c + 1) + 400 * q" by simp
    then show ?thesis by (simp only: mod_mult_self2)
  qed
  have c4: "(c + 1) mod 4 = 0 \<longleftrightarrow> c = 3"
  proof -
    have "c = 0 \<or> c = 1 \<or> c = 2 \<or> c = 3" using assms by arith
    then show ?thesis by auto
  qed
  have c100: "(4 * b + 3 + 1) mod 100 = 0 \<longleftrightarrow> b = 24"
  proof (cases "b = 24")
    case True
    then show ?thesis by simp
  next
    case False
    with assms have "0 < 4 * b + 3 + 1" "4 * b + 3 + 1 < 100" by arith+
    then have "(4 * b + 3 + 1) mod 100 = 4 * b + 3 + 1" by simp
    with False \<open>0 < 4 * b + 3 + 1\<close> show ?thesis by simp
  qed
  have c400: "(100 * a + 4 * 24 + 3 + 1) mod 400 = 0 \<longleftrightarrow> a = 3"
  proof (cases "a = 3")
    case True
    then show ?thesis by simp
  next
    case False
    with assms have "0 < 100 * a + 4 * 24 + 3 + 1" "100 * a + 4 * 24 + 3 + 1 < 400" by arith+
    then have "(100 * a + 4 * 24 + 3 + 1) mod 400 = 100 * a + 4 * 24 + 3 + 1" by simp
    with False \<open>0 < 100 * a + 4 * 24 + 3 + 1\<close> show ?thesis by simp
  qed
  show ?thesis
    unfolding is_leap_def m4 m100 m400 using c4 c100 c400 by auto
qed

lemma m0_range:
  fixes r :: int
  assumes "0 \<le> r" "r < 365"
  shows "32 * ((r + 50) div 32) - 50 \<le> r \<and> r \<le> 32 * ((r + 50) div 32) - 19 \<and>
         1 \<le> (r + 50) div 32 \<and> (r + 50) div 32 \<le> 12"
  using assms by arith

lemma month_tables:
  "DAYS_BEFORE_MONTH ! Suc 0 = 0" "DAYS_BEFORE_MONTH ! 2 = 31"
  "DAYS_BEFORE_MONTH ! 3 = 59" "DAYS_BEFORE_MONTH ! 4 = 90"
  "DAYS_BEFORE_MONTH ! 5 = 120" "DAYS_BEFORE_MONTH ! 6 = 151"
  "DAYS_BEFORE_MONTH ! 7 = 181" "DAYS_BEFORE_MONTH ! 8 = 212"
  "DAYS_BEFORE_MONTH ! 9 = 243" "DAYS_BEFORE_MONTH ! 10 = 273"
  "DAYS_BEFORE_MONTH ! 11 = 304" "DAYS_BEFORE_MONTH ! 12 = 334"
  "DAYS_IN_MONTH ! Suc 0 = 31" "DAYS_IN_MONTH ! 2 = 28"
  "DAYS_IN_MONTH ! 3 = 31" "DAYS_IN_MONTH ! 4 = 30"
  "DAYS_IN_MONTH ! 5 = 31" "DAYS_IN_MONTH ! 6 = 30"
  "DAYS_IN_MONTH ! 7 = 31" "DAYS_IN_MONTH ! 8 = 31"
  "DAYS_IN_MONTH ! 9 = 30" "DAYS_IN_MONTH ! 10 = 31"
  "DAYS_IN_MONTH ! 11 = 30" "DAYS_IN_MONTH ! 12 = 31"
  by (simp_all add: DAYS_BEFORE_MONTH_def DAYS_IN_MONTH_def eval_nat_numeral)


lemma month_step:
  fixes r m0 :: int
  assumes "m0 = k" "32 * k - 50 \<le> r" "r \<le> 32 * k - 19" "0 \<le> r" "r < 365"
    and "k = 1 \<or> k = 2 \<or> k = 3 \<or> k = 4 \<or> k = 5 \<or> k = 6 \<or> k = 7 \<or> k = 8 \<or>
         k = 9 \<or> k = 10 \<or> k = 11 \<or> k = 12"
  shows "case (let preceding = DAYS_BEFORE_MONTH ! nat m0 + (if m0 > 2 \<and> lp then 1 else 0)
     in if preceding > r
        then let m1 = m0 - 1;
                 preceding = preceding -
                   (DAYS_IN_MONTH ! nat m1 + (if m1 = 2 \<and> lp then 1 else 0))
             in (y, m1, r - preceding + 1)
        else (y, m0, r - preceding + 1)) of (y', m, d) \<Rightarrow>
    y' = y \<and> 1 \<le> m \<and> m \<le> 12 \<and> 1 \<le> d \<and>
    d \<le> (if m = 2 \<and> lp then 29 else DAYS_IN_MONTH ! nat m) \<and>
    DAYS_BEFORE_MONTH ! nat m + (if m > 2 \<and> lp then 1 else 0) + d = r + 1"
  using assms(6)
proof (elim disjE)
  assume "k = 1" with assms(1-5) show ?thesis by (simp add: month_tables Let_def)
next
  assume "k = 2" with assms(1-5) show ?thesis by (simp add: month_tables Let_def)
next
  assume "k = 3" with assms(1-5) show ?thesis by (simp add: month_tables Let_def)
next
  assume "k = 4" with assms(1-5) show ?thesis by (simp add: month_tables Let_def)
next
  assume "k = 5" with assms(1-5) show ?thesis by (simp add: month_tables Let_def)
next
  assume "k = 6" with assms(1-5) show ?thesis by (simp add: month_tables Let_def)
next
  assume "k = 7" with assms(1-5) show ?thesis by (simp add: month_tables Let_def)
next
  assume "k = 8" with assms(1-5) show ?thesis by (simp add: month_tables Let_def)
next
  assume "k = 9" with assms(1-5) show ?thesis by (simp add: month_tables Let_def)
next
  assume "k = 10" with assms(1-5) show ?thesis by (simp add: month_tables Let_def)
next
  assume "k = 11" with assms(1-5) show ?thesis by (simp add: month_tables Let_def)
next
  assume "k = 12" with assms(1-5) show ?thesis by (simp add: month_tables Let_def)
qed

lemma ord2ymd_correct:
  assumes "1 \<le> n"
  shows "case ord2ymd n of (y, m, d) \<Rightarrow>
           ymd2ord y m d = n \<and> 1 \<le> y \<and> 1 \<le> m \<and> m \<le> 12 \<and> 1 \<le> d \<and> d \<le> days_in_month y m"
proof -
  define n' where "n' = n - 1"
  define q where "q = n' div 146097"
  define r1 where "r1 = n' mod 146097"
  define a where "a = r1 div 36524"
  define r2 where "r2 = r1 mod 36524"
  define b where "b = r2 div 1461"
  define r3 where "r3 = r2 mod 1461"
  define c where "c = r3 div 365"
  define r4 where "r4 = r3 mod 365"
  define Y where "Y = q * 400 + 1 + a * 100 + b * 4 + c"
  define lp where "lp = (c = 3 \<and> (b \<noteq> 24 \<or> a = 3))"
  have n: "n = n' + 1" by (simp add: n'_def)
  have n'0: "0 \<le> n'" using assms by (simp add: n'_def)
  have q0: "0 \<le> q" using n'0 by (simp add: q_def pos_imp_zdiv_nonneg_iff)
  have e1: "n' = 146097 * q + r1" by (simp add: q_def r1_def)
  have b1: "0 \<le> r1" "r1 < 146097" by (simp_all add: r1_def)
  have e2: "r1 = 36524 * a + r2" by (simp add: a_def r2_def)
  have b2: "0 \<le> r2" "r2 < 36524" by (simp_all add: r2_def)
  have e3: "r2 = 1461 * b + r3" by (simp add: b_def r3_def)
  have b3: "0 \<le> r3" "r3 < 1461" by (simp_all add: r3_def)
  have e4: "r3 = 365 * c + r4" by (simp add: c_def r4_def)
  have b4: "0 \<le> r4" "r4 < 365" by (simp_all add: r4_def)
  have a0: "0 \<le> a" using b1 by (simp add: a_def pos_imp_zdiv_nonneg_iff)
  have b0: "0 \<le> b" using b2 by (simp add: b_def pos_imp_zdiv_nonneg_iff)
  have c0: "0 \<le> c" using b3 by (simp add: c_def pos_imp_zdiv_nonneg_iff)
  have a4: "a \<le> 4" using e2 b1 b2 by arith
  have b24: "b \<le> 24" using e3 b2 b3 by arith
  have c4: "c \<le> 4" using e4 b3 b4 by arith
  have eq: "ord2ymd n =
      (if c = 4 \<or> a = 4 then (Y - 1, 12, 31)
       else
         (let preceding = DAYS_BEFORE_MONTH ! nat ((r4 + 50) div 32) +
                (if (r4 + 50) div 32 > 2 \<and> lp then 1 else 0)
          in if preceding > r4
             then let m1 = (r4 + 50) div 32 - 1;
                      preceding = preceding -
                        (DAYS_IN_MONTH ! nat m1 + (if m1 = 2 \<and> lp then 1 else 0))
                  in (Y, m1, r4 - preceding + 1)
             else (Y, (r4 + 50) div 32, r4 - preceding + 1)))"
    unfolding ord2ymd_def Let_def Y_def lp_def r4_def c_def r3_def b_def r2_def a_def r1_def
      q_def n'_def
    by (rule refl)
  show ?thesis
  proof (cases "a = 4")
    case True
    with e2 b1 b2 have "r2 = 0" by arith
    with e3 b0 b3 have "b = 0" "r3 = 0" by arith+
    with e4 c0 b4 have "c = 0" "r4 = 0" by arith+
    define Z where "Z = Y - 1"
    have Z1: "Z = 400 * q + 100 * 3 + 4 * 24 + 3 + 1"
      using True \<open>b = 0\<close> \<open>c = 0\<close> by (simp add: Z_def Y_def)
    have nn: "n = 146097 * q + 146097"
      using n e1 e2 True \<open>r2 = 0\<close> by simp
    have dby: "days_before_year Z = 146097 * q + 36524 * 3 + 1461 * 24 + 365 * 3"
      unfolding Z1 by (rule days_before_year_cycle) simp_all
    have lpY: "is_leap Z"
      unfolding Z1 by (subst is_leap_cycle) simp_all
    have Z0: "1 \<le> Z" using Z1 q0 by simp
    have o: "ord2ymd n = (Z, 12, 31)"
      using True by (simp add: eq Z_def)
    show ?thesis
      unfolding o using dby lpY nn Z0
      by (simp add: ymd2ord_def days_before_month_def days_in_month_def month_tables)
  next
    case False
    with a4 have a3: "a \<le> 3" by simp
    show ?thesis
    proof (cases "c = 4")
      case True
      with e4 b3 b4 have "r4 = 0" by arith
      have "b \<noteq> 24" using e3 e4 True b2 b4 by arith
      with b24 have b23: "b \<le> 23" by simp
      define Z where "Z = Y - 1"
      have Z1: "Z = 400 * q + 100 * a + 4 * b + 3 + 1"
        using True by (simp add: Z_def Y_def)
      have nn: "n = 146097 * q + 36524 * a + 1461 * b + 1461"
        using n e1 e2 e3 e4 True \<open>r4 = 0\<close> by simp
      have dby: "days_before_year Z = 146097 * q + 36524 * a + 1461 * b + 365 * 3"
        unfolding Z1 using a0 a3 b0 b23 by (intro days_before_year_cycle) simp_all
      have lpY: "is_leap Z"
        unfolding Z1 using a0 a3 b0 b23 \<open>b \<noteq> 24\<close> by (subst is_leap_cycle) simp_all
      have Z0: "1 \<le> Z" using Z1 q0 a0 b0 by simp
      have o: "ord2ymd n = (Z, 12, 31)"
        using True by (simp add: eq Z_def)
      show ?thesis
        unfolding o using dby lpY nn Z0
        by (simp add: ymd2ord_def days_before_month_def days_in_month_def month_tables)
    next
      case c4': False
      with c4 have c3: "c \<le> 3" by simp
      have Yf: "Y = 400 * q + 100 * a + 4 * b + c + 1"
        by (simp add: Y_def)
      have dby: "days_before_year Y = 146097 * q + 36524 * a + 1461 * b + 365 * c"
        unfolding Yf using a0 a3 b0 b24 c0 c3 by (intro days_before_year_cycle)
      have lpY: "is_leap Y \<longleftrightarrow> lp"
        unfolding Yf lp_def using a0 a3 b0 b24 c0 c3 by (intro is_leap_cycle)
      have nn: "n = 146097 * q + 36524 * a + 1461 * b + 365 * c + r4 + 1"
        using n e1 e2 e3 e4 by simp
      have Y0: "1 \<le> Y" using Yf q0 a0 b0 c0 by simp
      note rng = m0_range [OF b4]
      define m0 where "m0 = (r4 + 50) div 32"
      have rng': "32 * m0 - 50 \<le> r4" "r4 \<le> 32 * m0 - 19" "1 \<le> m0" "m0 \<le> 12"
        using rng by (simp_all add: m0_def)
      have ks: "m0 = 1 \<or> m0 = 2 \<or> m0 = 3 \<or> m0 = 4 \<or> m0 = 5 \<or> m0 = 6 \<or>
          m0 = 7 \<or> m0 = 8 \<or> m0 = 9 \<or> m0 = 10 \<or> m0 = 11 \<or> m0 = 12"
        using rng'(3,4) by presburger
      have o2: "ord2ymd n =
         (let preceding = DAYS_BEFORE_MONTH ! nat ((r4 + 50) div 32) +
                (if (r4 + 50) div 32 > 2 \<and> lp then 1 else 0)
          in if preceding > r4
             then let m1 = (r4 + 50) div 32 - 1;
                      preceding = preceding -
                        (DAYS_IN_MONTH ! nat m1 + (if m1 = 2 \<and> lp then 1 else 0))
                  in (Y, m1, r4 - preceding + 1)
             else (Y, (r4 + 50) div 32, r4 - preceding + 1))"
        by (simp only: eq False c4' simp_thms if_False)
      have step: "case ord2ymd n of (y', m, d) \<Rightarrow>
          y' = Y \<and> 1 \<le> m \<and> m \<le> 12 \<and> 1 \<le> d \<and>
          d \<le> (if m = 2 \<and> lp then 29 else DAYS_IN_MONTH ! nat m) \<and>
          DAYS_BEFORE_MONTH ! nat m + (if m > 2 \<and> lp then 1 else 0) + d = r4 + 1"
        unfolding o2
        using month_step [where ?m0.0 = m0 and k = m0 and r = r4 and lp = lp and y = Y,
            OF refl rng'(1,2) b4 ks]
        unfolding m0_def .
      obtain y' m d where o: "ord2ymd n = (y', m, d)" by (cases "ord2ymd n")
      from step o have p: "y' = Y" "1 \<le> m" "m \<le> 12" "1 \<le> d"
        "d \<le> (if m = 2 \<and> lp then 29 else DAYS_IN_MONTH ! nat m)"
        "DAYS_BEFORE_MONTH ! nat m + (if m > 2 \<and> lp then 1 else 0) + d = r4 + 1"
        by simp_all
      show ?thesis
        unfolding o using p Y0 dby nn lpY
        by (simp add: ymd2ord_def days_before_month_def days_in_month_def)
    qed
  qed
qed

subsection \<open>Adding days and the day of the week\<close>

lemma date_new_Inr:
  "date_new y m d = Inr g \<longleftrightarrow>
     g = \<lparr>year = y, month = m, day = d\<rparr> \<and> 1 \<le> y \<and> y \<le> 9999 \<and> 1 \<le> m \<and> m \<le> 12 \<and>
     1 \<le> d \<and> d \<le> days_in_month y m"
  by (auto simp: date_new_def MINYEAR_def MAXYEAR_def)

lemma fromordinal_Inr:
  assumes "1 \<le> n" and "fromordinal n = Inr g"
  shows "toordinal g = n"
    and "g = (case ord2ymd n of (y, m, d) \<Rightarrow> \<lparr>year = y, month = m, day = d\<rparr>)"
proof -
  obtain y m d where o: "ord2ymd n = (y, m, d)" by (cases "ord2ymd n")
  with assms(2) have g: "g = \<lparr>year = y, month = m, day = d\<rparr>"
    by (simp add: fromordinal_def date_new_Inr)
  from ord2ymd_correct [OF assms(1)] o have "ymd2ord y m d = n" by simp
  with g show "toordinal g = n" by (simp add: toordinal_def)
  from g o show "g = (case ord2ymd n of (y, m, d) \<Rightarrow> \<lparr>year = y, month = m, day = d\<rparr>)"
    by simp
qed

lemma date_add_days_Inr:
  assumes "date_add_days t k = Inr g"
  shows "toordinal g = toordinal t + k" and "g = spec_plus_days t k"
proof -
  from assms have r: "0 < toordinal t + k" and f: "fromordinal (toordinal t + k) = Inr g"
    by (auto simp: date_add_days_def Let_def split: if_splits)
  from r have "1 \<le> toordinal t + k" by simp
  from fromordinal_Inr [OF this f]
  show "toordinal g = toordinal t + k" and "g = spec_plus_days t k"
    by (simp_all add: spec_plus_days_def)
qed

lemma weekday_range: "0 \<le> weekday t \<and> weekday t \<le> 6"
  by (simp add: weekday_def) 

lemma weekend_shift_is_monday:
  assumes "weekday t = 5 \<or> weekday t = 6" and "date_add_days t (7 - weekday t) = Inr g"
  shows "weekday g = 0"
proof -
  have "toordinal g = toordinal t + (7 - weekday t)"
    using assms(2) by (rule date_add_days_Inr(1))
  then show ?thesis
    using assms(1) unfolding weekday_def by presburger
qed

subsection \<open>One record of the loop\<close>

lemma date_replace_year_Inr:
  "date_replace_year b y = Inr t \<Longrightarrow>
     t = \<lparr>year = y, month = month b, day = day b\<rparr> \<and> date_new y (month b) (day b) = Inr t"
  by (simp add: date_replace_year_def date_new_Inr)

lemma birthday_this_year_Inr:
  assumes "date_replace_year bday (year today) = Inr b"
    and "(if date_lt b today then date_replace_year b (year today + 1) else Inr b) = Inr t"
  shows "t = spec_birthday_date today bday"
    and "date_new (year t) (month t) (day t) = Inr t"
proof -
  from date_replace_year_Inr [OF assms(1)]
  have b: "b = \<lparr>year = year today, month = month bday, day = day bday\<rparr>"
    and bv: "date_new (year today) (month bday) (day bday) = Inr b"
    by simp_all
  show "t = spec_birthday_date today bday"
  proof (cases "date_lt b today")
    case True
    with assms(2) have "date_replace_year b (year today + 1) = Inr t" by simp
    from date_replace_year_Inr [OF this] True b show ?thesis
      by (simp add: spec_birthday_date_def Let_def)
  next
    case False
    with assms(2) b show ?thesis
      by (simp add: spec_birthday_date_def Let_def)
  qed
  show "date_new (year t) (month t) (day t) = Inr t"
  proof (cases "date_lt b today")
    case True
    with assms(2) have "date_replace_year b (year today + 1) = Inr t" by simp
    from date_replace_year_Inr [OF this] show ?thesis
      by (simp add: date_new_Inr)
  next
    case False
    with assms(2) have "t = b" by simp
    with bv b show ?thesis by (simp add: date_new_Inr)
  qed
qed

lemma upcoming_of_record_Inr:
  assumes "upcoming_of_record today r = Inr x"
  shows "(birthday r = None \<and> x = None) \<or>
    (\<exists>v bday t. birthday r = Some v \<and> strptime_dmy v = Inr bday \<and>
       t = spec_birthday_date today bday \<and>
       date_new (year t) (month t) (day t) = Inr t \<and>
       (if 0 \<le> date_sub_days t today \<and> date_sub_days t today < 7
        then \<exists>g. (if weekday t \<in> {5, 6} then date_add_days t (7 - weekday t) else Inr t) = Inr g \<and>
               x = Some \<lparr>entry_name = name r, congratulate_on = strftime_dmy g\<rparr>
        else x = None))"
proof (cases "birthday r")
  case None
  with assms show ?thesis by (simp add: upcoming_of_record_def)
next
  case (Some v)
  show ?thesis
  proof (cases "strptime_dmy v")
    case (Inl e)
    with assms Some show ?thesis by (simp add: upcoming_of_record_def)
  next
    case (Inr bday)
    show ?thesis
    proof (cases "date_replace_year bday (year today)")
      case (Inl e)
      with assms Some Inr show ?thesis by (simp add: upcoming_of_record_def)
    next
      case b: (Inr b)
      show ?thesis
      proof (cases "if date_lt b today then date_replace_year b (year today + 1) else Inr b")
        case (Inl e)
        with assms Some Inr b show ?thesis by (simp add: upcoming_of_record_def)
      next
        case t: (Inr t)
        note sp = birthday_this_year_Inr [OF b t]
        have body: "(let delta = date_sub_days t today
             in if 0 \<le> delta \<and> delta < 7
                then (case (if weekday t \<in> {5, 6} then date_add_days t (7 - weekday t)
                            else Inr t) of
                        Inl e \<Rightarrow> Inl e
                      | Inr greeting_day \<Rightarrow>
                          Inr (Some \<lparr>entry_name = name r,
                                     congratulate_on = strftime_dmy greeting_day\<rparr>))
                else Inr None) = Inr x"
          using assms Some Inr b t by (simp add: upcoming_of_record_def)
        have "if 0 \<le> date_sub_days t today \<and> date_sub_days t today < 7
          then \<exists>g. (if weekday t \<in> {5, 6} then date_add_days t (7 - weekday t) else Inr t) = Inr g \<and>
               x = Some \<lparr>entry_name = name r, congratulate_on = strftime_dmy g\<rparr>
          else x = None"
          using body by (auto simp: Let_def split: if_splits sum.splits)
        with Some Inr sp show ?thesis by blast
      qed
    qed
  qed
qed

lemma upcoming_of_record_spec:
  assumes "upcoming_of_record today r = Inr x"
  shows "x = spec_entry today r"
  using upcoming_of_record_Inr [OF assms]
  by (auto simp: spec_entry_def Let_def spec_days_ahead_def date_sub_days_def
      spec_greeting_day_def dest: date_add_days_Inr(2) split: if_splits)

lemma upcoming_of_record_weekday:
  assumes "upcoming_of_record today r = Inr (Some e)"
  shows "\<exists>g. congratulate_on e = strftime_dmy g \<and>
           date_new (year g) (month g) (day g) = Inr g \<and> 0 \<le> weekday g \<and> weekday g \<le> 4"
proof -
  from upcoming_of_record_Inr [OF assms] obtain t g
    where tv: "date_new (year t) (month t) (day t) = Inr t"
      and g: "(if weekday t \<in> {5, 6} then date_add_days t (7 - weekday t) else Inr t) = Inr g"
      and e: "e = \<lparr>entry_name = name r, congratulate_on = strftime_dmy g\<rparr>"
    by (auto split: if_splits)
  show ?thesis
  proof (cases "weekday t = 5 \<or> weekday t = 6")
    case True
    with g have a: "date_add_days t (7 - weekday t) = Inr g" by auto
    from weekend_shift_is_monday [OF True a] have w: "weekday g = 0" .
    from a have "fromordinal (toordinal t + (7 - weekday t)) = Inr g"
      by (auto simp: date_add_days_def Let_def split: if_splits)
    then have "date_new (year g) (month g) (day g) = Inr g"
      by (auto simp: fromordinal_def date_new_Inr split: prod.splits)
    with w e show ?thesis by auto
  next
    case False
    with g have "g = t" by auto
    moreover from False weekday_range [of t] have "weekday t \<le> 4" by arith
    ultimately show ?thesis using tv e weekday_range [of t] by auto
  qed
qed

subsection \<open>The loop over the records\<close>

lemma upcoming_loop_Inr:
  "upcoming_loop today rs acc = Inr es \<Longrightarrow>
     es = acc @ List.map_filter (spec_entry today) rs"
proof (induction rs arbitrary: acc)
  case Nil
  then show ?case by simp
next
  case (Cons r rs)
  show ?case
  proof (cases "upcoming_of_record today r")
    case (Inl e)
    with Cons.prems show ?thesis by simp
  next
    case (Inr x)
    from upcoming_of_record_spec [OF Inr] have x: "spec_entry today r = x" by simp
    show ?thesis
    proof (cases x)
      case None
      with Cons.prems Inr have "upcoming_loop today rs acc = Inr es" by simp
      from Cons.IH [OF this] x None show ?thesis by simp
    next
      case (Some e)
      with Cons.prems Inr have "upcoming_loop today rs (acc @ [e]) = Inr es" by simp
      from Cons.IH [OF this] x Some show ?thesis by simp
    qed
  qed
qed

lemma upcoming_loop_members:
  "upcoming_loop today rs acc = Inr es \<Longrightarrow> e \<in> set es \<Longrightarrow>
     e \<in> set acc \<or> (\<exists>r\<in>set rs. upcoming_of_record today r = Inr (Some e))"
proof (induction rs arbitrary: acc)
  case Nil
  then show ?case by simp
next
  case (Cons r rs)
  show ?case
  proof (cases "upcoming_of_record today r")
    case (Inl e')
    with Cons.prems show ?thesis by simp
  next
    case (Inr x)
    show ?thesis
    proof (cases x)
      case None
      with Cons.prems Inr have "upcoming_loop today rs acc = Inr es" by simp
      from Cons.IH [OF this Cons.prems(2)] show ?thesis by auto
    next
      case (Some e')
      with Cons.prems Inr have "upcoming_loop today rs (acc @ [e']) = Inr es" by simp
      from Cons.IH [OF this Cons.prems(2)] Inr Some show ?thesis by auto
    qed
  qed
qed

lemma upcoming_loop_Inl:
  "r \<in> set rs \<Longrightarrow> upcoming_of_record today r = Inl e \<Longrightarrow>
     \<exists>e'. upcoming_loop today rs acc = Inl e'"
proof (induction rs arbitrary: acc)
  case Nil
  then show ?case by simp
next
  case (Cons r' rs)
  show ?case
  proof (cases "upcoming_of_record today r'")
    case (Inl e')
    then show ?thesis by simp
  next
    case (Inr x)
    with Cons.prems have "r \<in> set rs" by auto
    from Cons.IH [OF this Cons.prems(2)] Inr show ?thesis
      by (cases x) simp_all
  qed
qed

subsection \<open>Digits and their values\<close>

lemma digit_range_cases:
  "0 \<le> (k::int) \<Longrightarrow> k \<le> 9 \<Longrightarrow>
     k = 0 \<or> k = 1 \<or> k = 2 \<or> k = 3 \<or> k = 4 \<or> k = 5 \<or> k = 6 \<or> k = 7 \<or> k = 8 \<or> k = 9"
  by presburger

lemma digit_char_props:
  assumes "0 \<le> k" and "k \<le> 9"
  shows "is_digit (digit_char k)" and "digit_value (digit_char k) = k"
    and "is_1_9 (digit_char k) \<longleftrightarrow> 1 \<le> k"
    and "digit_char k = CHR ''0'' \<longleftrightarrow> k = 0"
    and "digit_char k = CHR ''1'' \<longleftrightarrow> k = 1"
    and "digit_char k = CHR ''3'' \<longleftrightarrow> k = 3"
    and "digit_char k \<in> set ''01'' \<longleftrightarrow> k \<le> 1"
    and "digit_char k \<in> set ''12'' \<longleftrightarrow> 1 \<le> k \<and> k \<le> 2"
    and "digit_char k \<in> set ''012'' \<longleftrightarrow> k \<le> 2"
    and "digit_char k \<noteq> CHR '' ''" and "digit_char k \<noteq> CHR ''.''"
  using digit_range_cases [OF assms]
  by (auto simp: digit_char_def is_digit_def is_1_9_def digit_value_def)

lemma is_digit_value:
  assumes "is_digit c"
  shows "0 \<le> digit_value c" and "digit_value c \<le> 9" and "digit_char (digit_value c) = c"
  using assms by (auto simp: is_digit_def digit_value_def digit_char_def)

lemma is_1_9_value:
  assumes "is_1_9 c"
  shows "is_digit c" and "1 \<le> digit_value c"
  using assms by (auto simp: is_digit_def is_1_9_def digit_value_def)

lemma is_digit_not_sep:
  "is_digit c \<Longrightarrow> c \<noteq> CHR '' '' \<and> c \<noteq> CHR ''.''"
  by (auto simp: is_digit_def)

lemma int_of_str_texts:
  "c1 \<noteq> CHR '' '' \<Longrightarrow> int_of_str [c1, c2] = 10 * digit_value c1 + digit_value c2"
  "c1 \<noteq> CHR '' '' \<Longrightarrow> int_of_str [c1] = digit_value c1"
  "c1 \<noteq> CHR '' '' \<Longrightarrow> int_of_str [CHR '' '', c1] = digit_value c1"
  "c1 \<noteq> CHR '' '' \<Longrightarrow> int_of_str [c1, c2, c3, c4] =
     1000 * digit_value c1 + 100 * digit_value c2 + 10 * digit_value c3 + digit_value c4"
  by (simp_all add: int_of_str_def)

lemma pad2_digits:
  assumes "0 \<le> a" "a \<le> 9" "0 \<le> b" "b \<le> 9"
  shows "pad2 (10 * a + b) = [digit_char a, digit_char b]"
proof -
  have "(10 * a + b) div 10 = a \<and> (10 * a + b) mod 10 = b"
    using assms by (intro int_div_mod_unique) simp_all
  then show ?thesis by (simp add: pad2_def)
qed

lemma pad4_digits:
  assumes "0 \<le> a" "a \<le> 9" "0 \<le> b" "b \<le> 9" "0 \<le> c" "c \<le> 9" "0 \<le> d" "d \<le> 9"
  shows "pad4 (1000 * a + 100 * b + 10 * c + d) =
           [digit_char a, digit_char b, digit_char c, digit_char d]"
proof -
  let ?n = "1000 * a + 100 * b + 10 * c + d"
  have 1: "?n div 1000 = a"
    using assms int_div_mod_unique [of ?n 1000 a "100 * b + 10 * c + d"] by simp
  have 2: "?n div 100 = 10 * a + b"
    using assms int_div_mod_unique [of ?n 100 "10 * a + b" "10 * c + d"] by simp
  have 3: "?n div 10 = 100 * a + 10 * b + c \<and> ?n mod 10 = d"
    using assms int_div_mod_unique [of ?n 10 "100 * a + 10 * b + c" d] by simp
  have 4: "(10 * a + b) mod 10 = b"
    using assms int_div_mod_unique [of "10 * a + b" 10 a b] by simp
  have 5: "(100 * a + 10 * b + c) mod 10 = c"
    using assms int_div_mod_unique [of "100 * a + 10 * b + c" 10 "10 * a + b" c] by simp
  show ?thesis
    unfolding pad4_def using 1 2 3 4 5 by simp
qed

subsection \<open>What the groups of the pattern match\<close>

lemma alt1_mem:
  "(t, r) \<in> set (alt1 p s) \<longleftrightarrow> (\<exists>c. s = c # r \<and> t = [c] \<and> p c)"
  by (auto simp: alt1_def split: list.splits)

lemma alt2_mem:
  "(t, r) \<in> set (alt2 p q s) \<longleftrightarrow> (\<exists>c1 c2. s = c1 # c2 # r \<and> t = [c1, c2] \<and> p c1 \<and> q c2)"
  by (auto simp: alt2_def split: list.splits)

lemma re_dot_mem: "r \<in> set (re_dot s) \<longleftrightarrow> s = CHR ''.'' # r"
  by (auto simp: re_dot_def split: list.splits)

lemma two_digit_text:
  assumes "is_digit c1" "is_digit c2"
  shows "int_of_str [c1, c2] = 10 * digit_value c1 + digit_value c2"
    and "pad2 (10 * digit_value c1 + digit_value c2) = [c1, c2]"
    and "CHR ''.'' \<notin> set [c1, c2]"
  using assms is_digit_value [of c1] is_digit_value [of c2]
    is_digit_not_sep [of c1] is_digit_not_sep [of c2]
  by (auto simp: int_of_str_texts pad2_digits)

lemma one_digit_text:
  assumes "is_1_9 c"
  shows "int_of_str [c] = digit_value c" and "int_of_str [CHR '' '', c] = digit_value c"
    and "1 \<le> digit_value c" and "digit_value c \<le> 9"
    and "digit_char (digit_value c) = c" and "c \<noteq> CHR ''.''" and "is_digit c"
  using is_1_9_value [OF assms] is_digit_value [of c] is_digit_not_sep [of c]
  by (simp_all add: int_of_str_texts)

lemma small_sets:
  "c \<in> set ''01'' \<Longrightarrow> is_digit c \<and> digit_value c \<le> 1"
  "c \<in> set ''12'' \<Longrightarrow> is_digit c \<and> 1 \<le> digit_value c \<and> digit_value c \<le> 2"
  "c \<in> set ''012'' \<Longrightarrow> is_digit c \<and> digit_value c \<le> 2"
  "is_digit CHR ''0'' \<and> digit_value CHR ''0'' = 0"
  "is_digit CHR ''1'' \<and> digit_value CHR ''1'' = 1"
  "is_digit CHR ''3'' \<and> digit_value CHR ''3'' = 3"
  by (auto simp: is_digit_def digit_value_def)

lemma re_d_sound:
  assumes "(t, r) \<in> set (re_d s)"
  shows "s = t @ r \<and> 1 \<le> int_of_str t \<and> int_of_str t \<le> 31 \<and>
         t \<in> set (day_texts (int_of_str t)) \<and> CHR ''.'' \<notin> set t"
proof -
  from assms have
    "(t, r) \<in> set (alt2 (\<lambda>c. c = CHR ''3'') (\<lambda>c. c \<in> set ''01'') s) \<or>
     (t, r) \<in> set (alt2 (\<lambda>c. c \<in> set ''12'') is_digit s) \<or>
     (t, r) \<in> set (alt2 (\<lambda>c. c = CHR ''0'') is_1_9 s) \<or>
     (t, r) \<in> set (alt1 is_1_9 s) \<or>
     (t, r) \<in> set (alt2 (\<lambda>c. c = CHR '' '') is_1_9 s)"
    unfolding re_d_def set_append Un_iff by (simp only: disj_assoc)
  then show ?thesis
  proof (elim disjE)
    assume "(t, r) \<in> set (alt2 (\<lambda>c. c = CHR ''3'') (\<lambda>c. c \<in> set ''01'') s)"
    then obtain c1 c2 where a: "s = c1 # c2 # r" "t = [c1, c2]" "c1 = CHR ''3''"
      "c2 \<in> set ''01''"
      unfolding alt2_mem by blast
    from a(3) small_sets(6) have d1: "is_digit c1" "digit_value c1 = 3" by simp_all
    from small_sets(1) [OF a(4)] have d2: "is_digit c2" "digit_value c2 \<le> 1" by simp_all
    from two_digit_text [OF d1(1) d2(1)] d1 d2 is_digit_value(1) [OF d2(1)] a(1,2)
    show ?thesis by (simp add: day_texts_def)
  next
    assume "(t, r) \<in> set (alt2 (\<lambda>c. c \<in> set ''12'') is_digit s)"
    then obtain c1 c2 where b: "s = c1 # c2 # r" "t = [c1, c2]" "c1 \<in> set ''12''"
      "is_digit c2"
      unfolding alt2_mem by blast
    from small_sets(2) [OF b(3)]
    have d1: "is_digit c1" "1 \<le> digit_value c1" "digit_value c1 \<le> 2" by simp_all
    from two_digit_text [OF d1(1) b(4)] d1 is_digit_value(1,2) [OF b(4)] b(1,2)
    show ?thesis by (simp add: day_texts_def)
  next
    assume "(t, r) \<in> set (alt2 (\<lambda>c. c = CHR ''0'') is_1_9 s)"
    then obtain c1 c2 where c: "s = c1 # c2 # r" "t = [c1, c2]" "c1 = CHR ''0''"
      "is_1_9 c2"
      unfolding alt2_mem by blast
    from c(3) small_sets(4) have d1: "is_digit c1" "digit_value c1 = 0" by simp_all
    note d2 = one_digit_text [OF c(4)]
    from two_digit_text [OF d1(1) d2(7)] d1 d2 c(1,2)
    show ?thesis by (simp add: day_texts_def)
  next
    assume "(t, r) \<in> set (alt1 is_1_9 s)"
    then obtain c where d: "s = c # r" "t = [c]" "is_1_9 c"
      unfolding alt1_mem by blast
    note d2 = one_digit_text [OF d(3)]
    from d2 d(1,2) show ?thesis by (simp add: day_texts_def)
  next
    assume "(t, r) \<in> set (alt2 (\<lambda>c. c = CHR '' '') is_1_9 s)"
    then obtain c1 c2 where e: "s = c1 # c2 # r" "t = [c1, c2]" "c1 = CHR '' ''"
      "is_1_9 c2"
      unfolding alt2_mem by blast
    note d2 = one_digit_text [OF e(4)]
    from d2 e(1,2,3) show ?thesis by (simp add: day_texts_def)
  qed
qed

lemma re_m_sound:
  assumes "(t, r) \<in> set (re_m s)"
  shows "s = t @ r \<and> 1 \<le> int_of_str t \<and> int_of_str t \<le> 12 \<and>
         t \<in> set (month_texts (int_of_str t)) \<and> CHR ''.'' \<notin> set t"
proof -
  from assms consider
      (a) c1 c2 where "s = c1 # c2 # r" "t = [c1, c2]" "c1 = CHR ''1''" "c2 \<in> set ''012''"
    | (c) c1 c2 where "s = c1 # c2 # r" "t = [c1, c2]" "c1 = CHR ''0''" "is_1_9 c2"
    | (d) c where "s = c # r" "t = [c]" "is_1_9 c"
    unfolding re_m_def set_append Un_iff alt1_mem alt2_mem by blast
  then show ?thesis
  proof cases
    case a
    from a(3) small_sets(5) have d1: "is_digit c1" "digit_value c1 = 1" by simp_all
    from small_sets(3) [OF a(4)] have d2: "is_digit c2" "digit_value c2 \<le> 2" by simp_all
    from two_digit_text [OF d1(1) d2(1)] d1 d2 is_digit_value(1) [OF d2(1)] a(1,2)
    show ?thesis by (simp add: month_texts_def)
  next
    case c
    from c(3) small_sets(4) have d1: "is_digit c1" "digit_value c1 = 0" by simp_all
    note d2 = one_digit_text [OF c(4)]
    from two_digit_text [OF d1(1) d2(7)] d1 d2 c(1,2)
    show ?thesis by (simp add: month_texts_def)
  next
    case d
    note d2 = one_digit_text [OF d(3)]
    from d2 d(1,2) show ?thesis by (simp add: month_texts_def)
  qed
qed

lemma re_Y_sound:
  assumes "(t, r) \<in> set (re_Y s)"
  shows "s = t @ r \<and> length t = 4 \<and> 0 \<le> int_of_str t \<and> int_of_str t \<le> 9999 \<and>
         pad4 (int_of_str t) = t"
proof -
  obtain r' where m: "match_digits 4 s = Some r'"
    using assms by (cases "match_digits 4 s") (simp_all add: re_Y_def)
  with assms have r: "r' = r" and t: "t = take 4 s"
    by (simp_all add: re_Y_def)
  from m r obtain ds where ds: "s = ds @ r" "length ds = 4" "\<forall>c\<in>set ds. is_digit c"
    using match_digits_Some [of 4 s r] by auto
  from ds(1,2) t have tt: "t = ds" by simp
  from ds(2) obtain c1 c2 c3 c4 where c: "ds = [c1, c2, c3, c4]"
    by (auto simp: length_Suc_conv eval_nat_numeral)
  with ds(3) have dg: "is_digit c1" "is_digit c2" "is_digit c3" "is_digit c4" by simp_all
  note v = is_digit_value [OF dg(1)] is_digit_value [OF dg(2)] is_digit_value [OF dg(3)]
    is_digit_value [OF dg(4)]
  have i: "int_of_str ds =
      1000 * digit_value c1 + 100 * digit_value c2 + 10 * digit_value c3 + digit_value c4"
    using is_digit_not_sep [OF dg(1)] c by (simp add: int_of_str_texts)
  have p: "pad4 (int_of_str ds) = ds"
    unfolding i using v c by (simp add: pad4_digits)
  from v i have "0 \<le> int_of_str ds \<and> int_of_str ds \<le> 9999" by simp
  with p tt ds show ?thesis by simp
qed

subsection \<open>The texts of a date are matched\<close>

lemma decimal4:
  fixes y :: int
  shows "1000 * (y div 1000) + 100 * (y div 100 mod 10) + 10 * (y div 10 mod 10) + y mod 10 = y"
proof -
  have a: "y div 100 = (y div 10) div 10" by (simp add: zdiv_zmult2_eq)
  have b: "y div 1000 = (y div 100) div 10" by (simp add: zdiv_zmult2_eq)
  have 1: "y = 10 * (y div 10) + y mod 10" by simp
  have 2: "y div 10 = 10 * (y div 100) + y div 10 mod 10" unfolding a by simp
  have 3: "y div 100 = 10 * (y div 1000) + y div 100 mod 10" unfolding b by simp
  from 1 2 3 show ?thesis by linarith
qed

lemma re_Y_complete:
  assumes "0 \<le> y" "y \<le> 9999"
  shows "(pad4 y, r) \<in> set (re_Y (pad4 y @ r)) \<and> int_of_str (pad4 y) = y \<and> length (pad4 y) = 4"
proof -
  have "y div 1000 \<le> 9999 div 1000"
    using assms(2) by (intro zdiv_mono1) simp_all
  then have r1: "0 \<le> y div 1000" "y div 1000 \<le> 9"
    using assms(1) by (simp_all add: pos_imp_zdiv_nonneg_iff)
  have r2: "0 \<le> y div 100 mod 10" "y div 100 mod 10 \<le> 9" by simp_all
  have r3: "0 \<le> y div 10 mod 10" "y div 10 mod 10 \<le> 9" by simp_all
  have r4: "0 \<le> y mod 10" "y mod 10 \<le> 9" by simp_all
  note p1 = digit_char_props(1,2,10) [OF r1]
  note p2 = digit_char_props(1,2) [OF r2]
  note p3 = digit_char_props(1,2) [OF r3]
  note p4 = digit_char_props(1,2) [OF r4]
  have dg: "\<forall>c\<in>set (pad4 y). is_digit c"
    using p1(1) p2(1) p3(1) p4(1) by (simp add: pad4_def)
  have len: "length (pad4 y) = 4" by (simp add: pad4_def)
  have "\<exists>ds. pad4 y @ r = ds @ r \<and> length ds = 4 \<and> (\<forall>c\<in>set ds. is_digit c)"
    using dg len by (intro exI [of _ "pad4 y"]) simp
  then have "match_digits 4 (pad4 y @ r) = Some r"
    by (simp only: match_digits_Some)
  then have m: "(pad4 y, r) \<in> set (re_Y (pad4 y @ r))"
    using len by (simp add: re_Y_def)
  have "int_of_str (pad4 y) =
      1000 * (y div 1000) + 100 * (y div 100 mod 10) + 10 * (y div 10 mod 10) + y mod 10"
    unfolding pad4_def int_of_str_texts(4) [OF p1(3)] p1(2) p2(2) p3(2) p4(2) by (rule refl)
  with decimal4 [of y] have "int_of_str (pad4 y) = y" by simp
  with m len show ?thesis by simp
qed

lemma alt_hits:
  "p c1 \<Longrightarrow> q c2 \<Longrightarrow> ([c1, c2], r) \<in> set (alt2 p q ([c1, c2] @ r))"
  "p c1 \<Longrightarrow> ([c1], r) \<in> set (alt1 p ([c1] @ r))"
  by (simp_all add: alt1_def alt2_def)

lemma re_d_alts:
  "(t, r) \<in> set (re_d s) \<longleftrightarrow>
     (t, r) \<in> set (alt2 (\<lambda>c. c = CHR ''3'') (\<lambda>c. c \<in> set ''01'') s) \<or>
     (t, r) \<in> set (alt2 (\<lambda>c. c \<in> set ''12'') is_digit s) \<or>
     (t, r) \<in> set (alt2 (\<lambda>c. c = CHR ''0'') is_1_9 s) \<or>
     (t, r) \<in> set (alt1 is_1_9 s) \<or>
     (t, r) \<in> set (alt2 (\<lambda>c. c = CHR '' '') is_1_9 s)"
  unfolding re_d_def set_append Un_iff by (simp only: disj_assoc)

lemma re_d_complete:
  assumes "1 \<le> d" "d \<le> 31" "t \<in> set (day_texts d)"
  shows "(t, r) \<in> set (re_d (t @ r)) \<and> int_of_str t = d"
proof -
  define a where "a = d div 10"
  define b where "b = d mod 10"
  have d: "d = 10 * a + b" by (simp add: a_def b_def)
  have rb: "0 \<le> b" "b \<le> 9" by (simp_all add: b_def)
  have ra: "0 \<le> a" "a \<le> 3" using assms(1,2) by (simp_all add: a_def)
  have ra9: "a \<le> 9" using ra by simp
  note pa = digit_char_props [OF ra(1) ra9]
  note pb = digit_char_props [OF rb]
  have p2: "pad2 d = [digit_char a, digit_char b]" by (simp add: pad2_def a_def b_def)
  from assms(3) consider (two) "t = pad2 d"
    | (one) "d < 10" "t = [digit_char d]" | (blank) "d < 10" "t = [CHR '' '', digit_char d]"
    by (auto simp: day_texts_def split: if_splits)
  then show ?thesis
  proof cases
    case two
    have i: "int_of_str t = d"
      using two p2 pa(2,10) pb(2) d by (simp add: int_of_str_texts)
    have "(t, r) \<in> set (re_d (t @ r))"
    proof (cases "a = 3")
      case True
      with d assms(2) have "b \<le> 1" by simp
      with pb(7) have "digit_char b \<in> set ''01''" by simp
      moreover from True pa(6) have "digit_char a = CHR ''3''" by simp
      ultimately have
        "(t, r) \<in> set (alt2 (\<lambda>c. c = CHR ''3'') (\<lambda>c. c \<in> set ''01'') (t @ r))"
        unfolding two p2 by (intro alt_hits(1))
      then show ?thesis unfolding re_d_alts by blast
    next
      case False
      show ?thesis
      proof (cases "a = 0")
        case True
        with d assms(1) have "1 \<le> b" by simp
        with pb(3) have "is_1_9 (digit_char b)" by simp
        moreover from True pa(4) have "digit_char a = CHR ''0''" by simp
        ultimately have "(t, r) \<in> set (alt2 (\<lambda>c. c = CHR ''0'') is_1_9 (t @ r))"
          unfolding two p2 by (intro alt_hits(1))
        then show ?thesis unfolding re_d_alts by blast
      next
        case a0: False
        with False ra have "1 \<le> a \<and> a \<le> 2" by simp
        with pa(8) have "digit_char a \<in> set ''12''" by simp
        with pb(1) have "(t, r) \<in> set (alt2 (\<lambda>c. c \<in> set ''12'') is_digit (t @ r))"
          unfolding two p2 by (intro alt_hits(1))
        then show ?thesis unfolding re_d_alts by blast
      qed
    qed
    with i show ?thesis by simp
  next
    case one
    with assms(1) have "0 \<le> d" "d \<le> 9" by simp_all
    note pd = digit_char_props [OF this]
    from pd(3) assms(1) have "is_1_9 (digit_char d)" by simp
    then have "(t, r) \<in> set (alt1 is_1_9 (t @ r))"
      unfolding one(2) by (intro alt_hits(2))
    then have "(t, r) \<in> set (re_d (t @ r))" unfolding re_d_alts by blast
    moreover have "int_of_str t = d"
      using one(2) pd(2,10) by (simp add: int_of_str_texts)
    ultimately show ?thesis by simp
  next
    case blank
    with assms(1) have "0 \<le> d" "d \<le> 9" by simp_all
    note pd = digit_char_props [OF this]
    from pd(3) assms(1) have "is_1_9 (digit_char d)" by simp
    then have "(t, r) \<in> set (alt2 (\<lambda>c. c = CHR '' '') is_1_9 (t @ r))"
      unfolding blank(2) by (intro alt_hits(1)) simp_all
    then have "(t, r) \<in> set (re_d (t @ r))" unfolding re_d_alts by blast
    moreover have "int_of_str t = d"
      using blank(2) pd(2,10) by (simp add: int_of_str_texts)
    ultimately show ?thesis by simp
  qed
qed

lemma re_m_alts:
  "(t, r) \<in> set (re_m s) \<longleftrightarrow>
     (t, r) \<in> set (alt2 (\<lambda>c. c = CHR ''1'') (\<lambda>c. c \<in> set ''012'') s) \<or>
     (t, r) \<in> set (alt2 (\<lambda>c. c = CHR ''0'') is_1_9 s) \<or>
     (t, r) \<in> set (alt1 is_1_9 s)"
  unfolding re_m_def set_append Un_iff by (simp only: disj_assoc)

lemma re_m_complete:
  assumes "1 \<le> m" "m \<le> 12" "t \<in> set (month_texts m)"
  shows "(t, r) \<in> set (re_m (t @ r)) \<and> int_of_str t = m"
proof -
  define a where "a = m div 10"
  define b where "b = m mod 10"
  have m: "m = 10 * a + b" by (simp add: a_def b_def)
  have rb: "0 \<le> b" "b \<le> 9" by (simp_all add: b_def)
  have ra: "0 \<le> a" "a \<le> 1" using assms(1,2) by (simp_all add: a_def)
  have ra9: "a \<le> 9" using ra by simp
  note pa = digit_char_props [OF ra(1) ra9]
  note pb = digit_char_props [OF rb]
  have p2: "pad2 m = [digit_char a, digit_char b]" by (simp add: pad2_def a_def b_def)
  from assms(3) consider (two) "t = pad2 m" | (one) "m < 10" "t = [digit_char m]"
    by (auto simp: month_texts_def split: if_splits)
  then show ?thesis
  proof cases
    case two
    have i: "int_of_str t = m"
      using two p2 pa(2,10) pb(2) m by (simp add: int_of_str_texts)
    have "(t, r) \<in> set (re_m (t @ r))"
    proof (cases "a = 1")
      case True
      with m assms(2) have "b \<le> 2" by simp
      with pb(9) have "digit_char b \<in> set ''012''" by simp
      moreover from True pa(5) have "digit_char a = CHR ''1''" by simp
      ultimately have
        "(t, r) \<in> set (alt2 (\<lambda>c. c = CHR ''1'') (\<lambda>c. c \<in> set ''012'') (t @ r))"
        unfolding two p2 by (intro alt_hits(1))
      then show ?thesis unfolding re_m_alts by blast
    next
      case False
      with ra have a0: "a = 0" by simp
      with m assms(1) have "1 \<le> b" by simp
      with pb(3) have "is_1_9 (digit_char b)" by simp
      moreover from a0 pa(4) have "digit_char a = CHR ''0''" by simp
      ultimately have "(t, r) \<in> set (alt2 (\<lambda>c. c = CHR ''0'') is_1_9 (t @ r))"
        unfolding two p2 by (intro alt_hits(1))
      then show ?thesis unfolding re_m_alts by blast
    qed
    with i show ?thesis by simp
  next
    case one
    with assms(1) have "0 \<le> m" "m \<le> 9" by simp_all
    note pd = digit_char_props [OF this]
    from pd(3) assms(1) have "is_1_9 (digit_char m)" by simp
    then have "(t, r) \<in> set (alt1 is_1_9 (t @ r))"
      unfolding one(2) by (intro alt_hits(2))
    then have "(t, r) \<in> set (re_m (t @ r))" unfolding re_m_alts by blast
    moreover have "int_of_str t = m"
      using one(2) pd(2,10) by (simp add: int_of_str_texts)
    ultimately show ?thesis by simp
  qed
qed

subsection \<open>Parsing a date\<close>

lemma dmy_matches_mem:
  "(d, m, y, rest) \<in> set (dmy_matches s) \<longleftrightarrow>
     (\<exists>r2 r4. (d, CHR ''.'' # r2) \<in> set (re_d s) \<and> (m, CHR ''.'' # r4) \<in> set (re_m r2) \<and>
        (y, rest) \<in> set (re_Y r4))"
proof
  assume "(d, m, y, rest) \<in> set (dmy_matches s)"
  then obtain r1 r2 r3 r4 where "(d, r1) \<in> set (re_d s)" "r2 \<in> set (re_dot r1)"
    "(m, r3) \<in> set (re_m r2)" "r4 \<in> set (re_dot r3)" "(y, rest) \<in> set (re_Y r4)"
    unfolding dmy_matches_def by auto
  then show "\<exists>r2 r4. (d, CHR ''.'' # r2) \<in> set (re_d s) \<and>
      (m, CHR ''.'' # r4) \<in> set (re_m r2) \<and> (y, rest) \<in> set (re_Y r4)"
    unfolding re_dot_mem by blast
next
  assume "\<exists>r2 r4. (d, CHR ''.'' # r2) \<in> set (re_d s) \<and>
      (m, CHR ''.'' # r4) \<in> set (re_m r2) \<and> (y, rest) \<in> set (re_Y r4)"
  then obtain r2 r4 where a: "(d, CHR ''.'' # r2) \<in> set (re_d s)"
    and b: "(m, CHR ''.'' # r4) \<in> set (re_m r2)" and c: "(y, rest) \<in> set (re_Y r4)"
    by blast
  have d2: "r2 \<in> set (re_dot (CHR ''.'' # r2))" and d4: "r4 \<in> set (re_dot (CHR ''.'' # r4))"
    by (simp_all add: re_dot_mem)
  show "(d, m, y, rest) \<in> set (dmy_matches s)"
    unfolding dmy_matches_def
    apply simp
    apply (rule bexI [OF _ a])
    apply (simp add: re_dot_def)
    apply (rule bexI [OF _ b])
    apply (simp add: re_dot_def)
    apply (rule image_eqI [OF _ c])
    apply simp
    done
qed

lemma dot_split_unique:
  "CHR ''.'' \<notin> set a \<Longrightarrow> CHR ''.'' \<notin> set b \<Longrightarrow> a @ CHR ''.'' # x = b @ CHR ''.'' # y \<Longrightarrow>
     a = b \<and> x = y"
proof (induction a arbitrary: b)
  case Nil
  then show ?case by (cases b) auto
next
  case (Cons c a)
  then show ?case by (cases b) auto
qed

lemma days_in_month_le_31:
  assumes "1 \<le> m" "m \<le> 12"
  shows "days_in_month y m \<le> 31"
proof -
  have "m = 1 \<or> m = 2 \<or> m = 3 \<or> m = 4 \<or> m = 5 \<or> m = 6 \<or> m = 7 \<or> m = 8 \<or>
        m = 9 \<or> m = 10 \<or> m = 11 \<or> m = 12"
    using assms by presburger
  then show ?thesis
    by (elim disjE) (simp_all add: days_in_month_def month_tables)
qed

lemma strptime_dmy_Inl:
  "strptime_dmy s = Inl e \<Longrightarrow> \<exists>msg. e = ValueError msg"
  by (auto simp: strptime_dmy_def date_new_def split: list.splits if_splits)

lemma date_texts_mem:
  "s \<in> set (date_texts y m d) \<longleftrightarrow>
     (\<exists>ds ms. ds \<in> set (day_texts d) \<and> ms \<in> set (month_texts m) \<and>
        s = ds @ CHR ''.'' # ms @ CHR ''.'' # pad4 y)"
  unfolding date_texts_def by auto

lemma strptime_dmy_sound:
  assumes "strptime_dmy s = Inr dt"
  shows "spec_date_exists (year dt) (month dt) (day dt) \<and>
         s \<in> set (date_texts (year dt) (month dt) (day dt))"
proof -
  from assms obtain d m y tl where hd: "dmy_matches s = (d, m, y, []) # tl"
    and dn: "date_new (int_of_str y) (int_of_str m) (int_of_str d) = Inr dt"
    by (auto simp: strptime_dmy_def split: list.splits if_splits)
  from hd have "(d, m, y, []) \<in> set (dmy_matches s)" by simp
  then obtain r2 r4 where a: "(d, CHR ''.'' # r2) \<in> set (re_d s)"
    and b: "(m, CHR ''.'' # r4) \<in> set (re_m r2)" and c: "(y, []) \<in> set (re_Y r4)"
    unfolding dmy_matches_mem by blast
  note sa = re_d_sound [OF a] and sb = re_m_sound [OF b] and sc = re_Y_sound [OF c]
  from dn have dt: "dt = \<lparr>year = int_of_str y, month = int_of_str m, day = int_of_str d\<rparr>"
    and ex: "spec_date_exists (int_of_str y) (int_of_str m) (int_of_str d)"
    by (simp_all add: date_new_Inr spec_date_exists_def)
  have "s = d @ CHR ''.'' # m @ CHR ''.'' # pad4 (int_of_str y)"
    using sa sb sc by simp
  with sa sb have "s \<in> set (date_texts (int_of_str y) (int_of_str m) (int_of_str d))"
    unfolding date_texts_mem by blast
  with ex dt show ?thesis by simp
qed

lemma strptime_dmy_complete:
  assumes "spec_date_exists y m d" and "s \<in> set (date_texts y m d)"
  shows "strptime_dmy s = Inr \<lparr>year = y, month = m, day = d\<rparr>"
proof -
  from assms(1) have y: "1 \<le> y" "y \<le> 9999" and m: "1 \<le> m" "m \<le> 12"
    and d: "1 \<le> d" "d \<le> days_in_month y m"
    by (simp_all add: spec_date_exists_def)
  from d(2) days_in_month_le_31 [OF m, of y] have d31: "d \<le> 31" by simp
  from assms(2) obtain ds ms where ds: "ds \<in> set (day_texts d)"
    and ms: "ms \<in> set (month_texts m)" and s: "s = ds @ CHR ''.'' # ms @ CHR ''.'' # pad4 y"
    unfolding date_texts_mem by blast
  from y have y0: "0 \<le> y" by simp
  note cd = re_d_complete [OF d(1) d31 ds, of "CHR ''.'' # ms @ CHR ''.'' # pad4 y"]
  note cm = re_m_complete [OF m ms, of "CHR ''.'' # pad4 y"]
  note cy = re_Y_complete [OF y0 y(2), of "[]"]
  have mem: "(ds, ms, pad4 y, []) \<in> set (dmy_matches s)"
    unfolding dmy_matches_mem s using cd cm cy by auto
  then obtain h tl where hd: "dmy_matches s = h # tl"
    by (cases "dmy_matches s") auto
  obtain d' m' y' rest' where h: "h = (d', m', y', rest')" by (cases h)
  with hd have "(d', m', y', rest') \<in> set (dmy_matches s)" by simp
  then obtain r2 r4 where a: "(d', CHR ''.'' # r2) \<in> set (re_d s)"
    and b: "(m', CHR ''.'' # r4) \<in> set (re_m r2)" and c: "(y', rest') \<in> set (re_Y r4)"
    unfolding dmy_matches_mem by blast
  note sa = re_d_sound [OF a] and sb = re_m_sound [OF b] and sc = re_Y_sound [OF c]
  from cd have nd: "CHR ''.'' \<notin> set ds" using re_d_sound by blast
  from cm have nm: "CHR ''.'' \<notin> set ms" using re_m_sound by blast
  from sa s have "d' @ CHR ''.'' # r2 = ds @ CHR ''.'' # (ms @ CHR ''.'' # pad4 y)" by simp
  with sa nd have e1: "d' = ds" "r2 = ms @ CHR ''.'' # pad4 y"
    using dot_split_unique by blast+
  from sb e1 have "m' @ CHR ''.'' # r4 = ms @ CHR ''.'' # pad4 y" by simp
  with sb nm have e2: "m' = ms" "r4 = pad4 y"
    using dot_split_unique by blast+
  from sc e2 cy have e3: "y' = pad4 y" "rest' = []" by auto
  from hd h e1 e2 e3 have "dmy_matches s = (ds, ms, pad4 y, []) # tl" by simp
  then have "strptime_dmy s = date_new (int_of_str (pad4 y)) (int_of_str ms) (int_of_str ds)"
    by (simp add: strptime_dmy_def)
  also have "\<dots> = date_new y m d" using cd cm cy by simp
  also have "\<dots> = Inr \<lparr>year = y, month = m, day = d\<rparr>"
    using y m d by (simp add: date_new_Inr)
  finally show ?thesis .
qed

lemma strftime_dmy_text:
  "strftime_dmy \<lparr>year = y, month = m, day = d\<rparr> \<in> set (date_texts y m d)"
proof -
  have "pad2 d \<in> set (day_texts d)" and "pad2 m \<in> set (month_texts m)"
    by (simp_all add: day_texts_def month_texts_def)
  then show ?thesis
    unfolding date_texts_mem strftime_dmy_def by (intro exI [of _ "pad2 d"] exI [of _ "pad2 m"]) simp
qed

lemma strptime_strftime:
  "spec_date_exists y m d \<Longrightarrow>
     strptime_dmy (strftime_dmy \<lparr>year = y, month = m, day = d\<rparr>) =
       Inr \<lparr>year = y, month = m, day = d\<rparr>"
  by (rule strptime_dmy_complete [OF _ strftime_dmy_text])

subsection \<open>The birthday validator\<close>

text \<open>
  C3. The claim: the birthday validator returns true exactly for a day of two digits, a
  month of two digits and a year of four digits, separated by dots, that denote an
  existing calendar date, and false for \<^verbatim>\<open>1.1.2020\<close>. The message of the constructor
  asks for the same form, DD.MM.YYYY. The parser makes the leading zero of the day and of
  the month optional: the validator returns true on \<^verbatim>\<open>1.1.2020\<close>, a string of eight
  characters, and the constructor stores it.
\<close>

theorem Birthday_validate_single_digit_accepted:
  "Birthday_validate ''1.1.2020'' = Inr True \<and>
   Birthday ''1.1.2020'' = Inr ''1.1.2020'' \<and>
   length ''1.1.2020'' = 8 \<and>
   strptime_dmy ''1.1.2020'' = Inr \<lparr>year = 2020, month = 1, day = 1\<rparr>"
  by code_simp

text \<open>
  What the validator accepts, over the strings of the model: the texts day, dot, month,
  dot, year of an existing calendar date of the years 0001 to 9999, where the day is
  written with two digits or, below 10, as one digit or as a blank and one digit, the month
  with two digits or, below 10, as one digit, and the year with four digits; it never
  raises. Every existing date written as DD.MM.YYYY is among them, \<^verbatim>\<open>31.02.2024\<close> and
  \<^verbatim>\<open>00.01.2020\<close> are not.
\<close>

lemma Birthday_validate_accepts:
  "Birthday_validate s =
     Inr (\<exists>y m d. spec_date_exists y m d \<and> s \<in> set (date_texts y m d)) \<and>
   (spec_date_exists y m d \<longrightarrow>
      Birthday_validate (strftime_dmy \<lparr>year = y, month = m, day = d\<rparr>) = Inr True) \<and>
   Birthday_validate ''31.02.2024'' = Inr False \<and>
   Birthday_validate ''00.01.2020'' = Inr False \<and>
   Birthday_validate ''1.1.2020'' = Inr True"
proof (intro conjI impI)
  show "Birthday_validate s =
     Inr (\<exists>y m d. spec_date_exists y m d \<and> s \<in> set (date_texts y m d))"
  proof (cases "strptime_dmy s")
    case (Inl e)
    then obtain msg where e: "e = ValueError msg"
      using strptime_dmy_Inl by blast
    have "\<not> (\<exists>y m d. spec_date_exists y m d \<and> s \<in> set (date_texts y m d))"
      using strptime_dmy_complete [of _ _ _ s] Inl by fastforce
    with Inl e show ?thesis by (simp add: Birthday_validate_def)
  next
    case (Inr dt)
    from strptime_dmy_sound [OF Inr]
    have "\<exists>y m d. spec_date_exists y m d \<and> s \<in> set (date_texts y m d)" by blast
    with Inr show ?thesis by (simp add: Birthday_validate_def)
  qed
next
  assume "spec_date_exists y m d"
  then show "Birthday_validate (strftime_dmy \<lparr>year = y, month = m, day = d\<rparr>) = Inr True"
    by (simp add: Birthday_validate_def strptime_strftime)
next
  show "Birthday_validate ''31.02.2024'' = Inr False" by code_simp
next
  show "Birthday_validate ''00.01.2020'' = Inr False" by code_simp
next
  show "Birthday_validate ''1.1.2020'' = Inr True" by code_simp
qed

lemma Birthday_validate_accepts_example:
  "spec_date_exists 2024 2 29 \<and>
   Birthday_validate (strftime_dmy \<lparr>year = 2024, month = 2, day = 29\<rparr>) = Inr True \<and>
   strftime_dmy \<lparr>year = 2024, month = 2, day = 29\<rparr> = ''29.02.2024'' \<and>
   '' 5.3.2024'' \<in> set (date_texts 2024 3 5) \<and>
   Birthday_validate '' 5.3.2024'' = Inr True"
proof -
  have e1: "spec_date_exists 2024 2 29" by code_simp
  have e2: "spec_date_exists 2024 3 5" by code_simp
  have t: "'' 5.3.2024'' \<in> set (date_texts 2024 3 5)" by code_simp
  have f: "strftime_dmy \<lparr>year = 2024, month = 2, day = 29\<rparr> = ''29.02.2024''" by code_simp
  from e2 t have ex: "\<exists>y m d. spec_date_exists y m d \<and> '' 5.3.2024'' \<in> set (date_texts y m d)"
    by blast
  from Birthday_validate_accepts [of "'' 5.3.2024''" 2024 2 29] e1 ex
  have "Birthday_validate (strftime_dmy \<lparr>year = 2024, month = 2, day = 29\<rparr>) = Inr True"
    and "Birthday_validate '' 5.3.2024'' = Inr True"
    by simp_all
  with e1 t f show ?thesis by simp
qed

subsection \<open>Upcoming birthdays\<close>

lemma upcoming_example:
  "get_upcoming_birthdays \<lparr>year = 2022, month = 12, day = 27\<rparr>
     [(''Alice'', \<lparr>name = ''Alice'', phones = [], birthday = Some ''01.01.1990''\<rparr>),
      (''Bob'', \<lparr>name = ''Bob'', phones = [''0501234567''], birthday = Some ''15.06.1985''\<rparr>),
      (''Carl'', \<lparr>name = ''Carl'', phones = [], birthday = None\<rparr>),
      (''Dana'', \<lparr>name = ''Dana'', phones = [], birthday = Some ''28.12.2000''\<rparr>)] =
   Inr [\<lparr>entry_name = ''Alice'', congratulate_on = ''02.01.2023''\<rparr>,
        \<lparr>entry_name = ''Dana'', congratulate_on = ''28.12.2022''\<rparr>]"
  by code_simp

text \<open>
  C1, as stated: every record with a birthday has an entry in the result exactly when
  its birthday, placed in the current or the next year, is 0 to 6 days ahead. On
  2023-03-01, with Ann born on 29.02.2000 and Bob on 01.03.1990, Bob's birthday is today,
  so the claim puts his entry in the result; the call raises on Ann's record and returns
  no list.
\<close>

theorem get_upcoming_birthdays_counterexample:
  "get_upcoming_birthdays \<lparr>year = 2023, month = 3, day = 1\<rparr>
     [(''Ann'', \<lparr>name = ''Ann'', phones = [], birthday = Some ''29.02.2000''\<rparr>),
      (''Bob'', \<lparr>name = ''Bob'', phones = [], birthday = Some ''01.03.1990''\<rparr>)] =
     Inl (ValueError ''day is out of range for month'') \<and>
   spec_entry \<lparr>year = 2023, month = 3, day = 1\<rparr>
     \<lparr>name = ''Bob'', phones = [], birthday = Some ''01.03.1990''\<rparr> =
     Some \<lparr>entry_name = ''Bob'', congratulate_on = ''01.03.2023''\<rparr>"
  by code_simp

text \<open>
  C1, amended: whenever \<^verbatim>\<open>get_upcoming_birthdays\<close> returns a list, the list holds, in
  the order of the book, one entry for each record with a birthday whose month and day,
  placed in the current year (or in the next year when that date is strictly before
  today), lie 0 to 6 days ahead of today, and no other entry; the entry carries the
  record's name and that date, moved to the following Monday by adding 7 minus the weekday
  when it is a Saturday or a Sunday, printed as DD.MM.YYYY.
\<close>

theorem get_upcoming_birthdays_refines_spec:
  assumes "get_upcoming_birthdays today book = Inr es"
  shows "es = spec_upcoming today book"
  using upcoming_loop_Inr [of today "map snd book" "[]" es] assms
  by (simp add: get_upcoming_birthdays_def spec_upcoming_def)

theorem get_upcoming_birthdays_refines_spec_witness:
  "get_upcoming_birthdays \<lparr>year = 2022, month = 12, day = 27\<rparr>
     [(''Alice'', \<lparr>name = ''Alice'', phones = [], birthday = Some ''01.01.1990''\<rparr>),
      (''Bob'', \<lparr>name = ''Bob'', phones = [''0501234567''], birthday = Some ''15.06.1985''\<rparr>),
      (''Carl'', \<lparr>name = ''Carl'', phones = [], birthday = None\<rparr>),
      (''Dana'', \<lparr>name = ''Dana'', phones = [], birthday = Some ''28.12.2000''\<rparr>)] =
     Inr [\<lparr>entry_name = ''Alice'', congratulate_on = ''02.01.2023''\<rparr>,
          \<lparr>entry_name = ''Dana'', congratulate_on = ''28.12.2022''\<rparr>] \<and>
   spec_upcoming \<lparr>year = 2022, month = 12, day = 27\<rparr>
     [(''Alice'', \<lparr>name = ''Alice'', phones = [], birthday = Some ''01.01.1990''\<rparr>),
      (''Bob'', \<lparr>name = ''Bob'', phones = [''0501234567''], birthday = Some ''15.06.1985''\<rparr>),
      (''Carl'', \<lparr>name = ''Carl'', phones = [], birthday = None\<rparr>),
      (''Dana'', \<lparr>name = ''Dana'', phones = [], birthday = Some ''28.12.2000''\<rparr>)] =
     [\<lparr>entry_name = ''Alice'', congratulate_on = ''02.01.2023''\<rparr>,
      \<lparr>entry_name = ''Dana'', congratulate_on = ''28.12.2022''\<rparr>]"
  using upcoming_example get_upcoming_birthdays_refines_spec [OF upcoming_example]
  by simp

text \<open>
  C10. Every entry that \<^verbatim>\<open>get_upcoming_birthdays\<close> returns carries a text that
  parses to a calendar date, is the printed form of that date, and the weekday of the date
  is Monday (0) to Friday (4), never Saturday or Sunday.
\<close>

theorem get_upcoming_birthdays_never_weekend:
  assumes "get_upcoming_birthdays today book = Inr es"
  shows "\<forall>e\<in>set es. \<exists>g. strptime_dmy (congratulate_on e) = Inr g \<and>
           congratulate_on e = strftime_dmy g \<and> 0 \<le> weekday g \<and> weekday g \<le> 4"
proof
  fix e assume "e \<in> set es"
  with assms upcoming_loop_members [of today "map snd book" "[]" es e]
  obtain r where "upcoming_of_record today r = Inr (Some e)"
    by (auto simp: get_upcoming_birthdays_def)
  from upcoming_of_record_weekday [OF this]
  obtain g where c: "congratulate_on e = strftime_dmy g"
    and v: "date_new (year g) (month g) (day g) = Inr g"
    and w: "0 \<le> weekday g" "weekday g \<le> 4"
    by blast
  from v have "spec_date_exists (year g) (month g) (day g)"
    by (simp add: date_new_Inr spec_date_exists_def)
  from strptime_strftime [OF this] have "strptime_dmy (strftime_dmy g) = Inr g"
    by (cases g) simp
  with c w show "\<exists>g. strptime_dmy (congratulate_on e) = Inr g \<and>
      congratulate_on e = strftime_dmy g \<and> 0 \<le> weekday g \<and> weekday g \<le> 4"
    by auto
qed

theorem get_upcoming_birthdays_never_weekend_witness:
  "get_upcoming_birthdays \<lparr>year = 2022, month = 12, day = 27\<rparr>
     [(''Alice'', \<lparr>name = ''Alice'', phones = [], birthday = Some ''01.01.1990''\<rparr>),
      (''Bob'', \<lparr>name = ''Bob'', phones = [''0501234567''], birthday = Some ''15.06.1985''\<rparr>),
      (''Carl'', \<lparr>name = ''Carl'', phones = [], birthday = None\<rparr>),
      (''Dana'', \<lparr>name = ''Dana'', phones = [], birthday = Some ''28.12.2000''\<rparr>)] =
     Inr [\<lparr>entry_name = ''Alice'', congratulate_on = ''02.01.2023''\<rparr>,
          \<lparr>entry_name = ''Dana'', congratulate_on = ''28.12.2022''\<rparr>] \<and>
   (\<exists>g. strptime_dmy ''02.01.2023'' = Inr g \<and> ''02.01.2023'' = strftime_dmy g \<and>
      0 \<le> weekday g \<and> weekday g \<le> 4)"
  using upcoming_example get_upcoming_birthdays_never_weekend [OF upcoming_example]
  by simp

text \<open>
  C7. When a record of the book has a birthday on February 29 and the current year is no
  leap year, replacing the year of the birthday raises \<^verbatim>\<open>ValueError\<close>, and
  \<^verbatim>\<open>get_upcoming_birthdays\<close> raises an error instead of returning a list.
\<close>

theorem get_upcoming_birthdays_leap_day_raises:
  assumes "(k, r) \<in> set book" and "birthday r = Some v" and "strptime_dmy v = Inr bday"
    and "month bday = 2" and "day bday = 29" and "\<not> is_leap (year today)"
  shows "(\<exists>msg. date_replace_year bday (year today) = Inl (ValueError msg)) \<and>
         (\<exists>e. get_upcoming_birthdays today book = Inl e)"
proof -
  have dim: "days_in_month (year today) 2 = 28"
    using assms(6) by (simp add: days_in_month_def DAYS_IN_MONTH_def eval_nat_numeral)
  have rep: "\<exists>msg. date_replace_year bday (year today) = Inl (ValueError msg)"
    using assms(4,5) dim by (simp add: date_replace_year_def date_new_def)
  then have "\<exists>e. upcoming_of_record today r = Inl e"
    using assms(2,3) by (auto simp: upcoming_of_record_def)
  then obtain e where "upcoming_of_record today r = Inl e" ..
  moreover have "r \<in> set (map snd book)"
    using assms(1) by force
  ultimately have "\<exists>e'. upcoming_loop today (map snd book) [] = Inl e'"
    by (rule upcoming_loop_Inl [rotated])
  with rep show ?thesis by (simp add: get_upcoming_birthdays_def)
qed

theorem get_upcoming_birthdays_leap_day_raises_witness:
  "strptime_dmy ''29.02.2000'' = Inr \<lparr>year = 2000, month = 2, day = 29\<rparr> \<and>
   \<not> is_leap 2023 \<and>
   (\<exists>e. get_upcoming_birthdays \<lparr>year = 2023, month = 3, day = 1\<rparr>
      [(''Bob'', \<lparr>name = ''Bob'', phones = [], birthday = Some ''02.03.1990''\<rparr>),
       (''Ann'', \<lparr>name = ''Ann'', phones = [], birthday = Some ''29.02.2000''\<rparr>)] = Inl e)"
proof -
  have p: "strptime_dmy ''29.02.2000'' = Inr \<lparr>year = 2000, month = 2, day = 29\<rparr>"
    by code_simp
  have l: "\<not> is_leap (year \<lparr>year = 2023, month = 3, day = 1\<rparr>)"
    by (simp add: is_leap_def)
  have m: "(''Ann'', \<lparr>name = ''Ann'', phones = [], birthday = Some ''29.02.2000''\<rparr>) \<in>
      set [(''Bob'', \<lparr>name = ''Bob'', phones = [], birthday = Some ''02.03.1990''\<rparr>),
           (''Ann'', \<lparr>name = ''Ann'', phones = [], birthday = Some ''29.02.2000''\<rparr>)]"
    by simp
  from get_upcoming_birthdays_leap_day_raises [OF m _ p _ _ l] p l
  show ?thesis by simp
qed

subsection \<open>Saving and loading\<close>

text \<open>
  C2. A book saved with \<^verbatim>\<open>save_data\<close> and loaded with \<^verbatim>\<open>load_data\<close> from the same
  file is the book again: the same names in the same order, and for each name the same
  phones and the same birthday or none. What \<^verbatim>\<open>pickle\<close> contributes is assumed of it:
  that its \<^verbatim>\<open>load\<close> gives back the book its \<^verbatim>\<open>dump\<close> was given.
\<close>

theorem load_data_after_save_data:
  assumes "pickle_load (pickle_dump book) = Inr book"
    and "save_data pickle_dump book filename fs = (Inr (), fs')"
  shows "load_data pickle_load filename fs' = Inr book \<and>
         fs' filename = Some (Regular (pickle_dump book))"
proof -
  from assms(2) have "fs' = fs(filename \<mapsto> Regular (pickle_dump book))"
    by (auto simp: save_data_def split: option.splits node.splits)
  with assms(1) show ?thesis
    by (simp add: load_data_def open_rb_def)
qed

theorem load_data_after_save_data_witness:
  "save_data (\<lambda>b. [length b])
     [(''Ann'', \<lparr>name = ''Ann'', phones = [''0501234567''], birthday = Some ''01.02.1990''\<rparr>)]
     ''addressbook.pkl'' Map.empty =
     (Inr (), [''addressbook.pkl'' \<mapsto> Regular [1]]) \<and>
   load_data
     (\<lambda>bs. if bs = [1]
        then Inr [(''Ann'', \<lparr>name = ''Ann'', phones = [''0501234567''],
                   birthday = Some ''01.02.1990''\<rparr>)]
        else Inl (OtherError ''UnpicklingError''))
     ''addressbook.pkl'' [''addressbook.pkl'' \<mapsto> Regular [1]] =
     Inr [(''Ann'', \<lparr>name = ''Ann'', phones = [''0501234567''],
           birthday = Some ''01.02.1990''\<rparr>)]"
proof -
  let ?book = "[(''Ann'', \<lparr>name = ''Ann'', phones = [''0501234567''],
                 birthday = Some ''01.02.1990''\<rparr>)]"
  let ?dump = "\<lambda>b :: AddressBook. [length b]"
  let ?load = "\<lambda>bs :: bytes. if bs = [1] then Inr ?book
                else Inl (OtherError ''UnpicklingError'')"
  have rt: "?load (?dump ?book) = Inr ?book"
    by simp
  have sv: "save_data ?dump ?book ''addressbook.pkl'' Map.empty =
      (Inr (), [''addressbook.pkl'' \<mapsto> Regular [1]])"
    by (simp add: save_data_def)
  from load_data_after_save_data [of ?load ?dump ?book, OF rt sv] sv
  show ?thesis by simp
qed

text \<open>
  C6, as stated: the only failure \<^verbatim>\<open>load_data\<close> tolerates is a file that does not
  exist, and every other read or deserialize error propagates. The \<^verbatim>\<open>try\<close> block
  holds \<^verbatim>\<open>pickle.load\<close> as well as \<^verbatim>\<open>open\<close>: when the file exists and unpickling
  it raises \<^verbatim>\<open>FileNotFoundError\<close>, the handler catches that error too and an empty book
  is returned.
\<close>

theorem load_data_counterexample:
  "open_rb ''addressbook.pkl'' [''addressbook.pkl'' \<mapsto> Regular [1, 2, 3]] = Inr [1, 2, 3] \<and>
   load_data (\<lambda>bs. Inl FileNotFoundError) ''addressbook.pkl''
     [''addressbook.pkl'' \<mapsto> Regular [1, 2, 3]] = Inr AddressBook_init"
  by (simp add: load_data_def open_rb_def)

text \<open>
  C6, amended: loading from a file that does not exist returns a fresh empty book, and
  every error raised by \<^verbatim>\<open>open\<close> or by \<^verbatim>\<open>pickle.load\<close> whose class is not
  \<^verbatim>\<open>FileNotFoundError\<close> is raised by \<^verbatim>\<open>load_data\<close> unchanged.
\<close>

theorem load_data_errors:
  "(fs filename = None \<longrightarrow> load_data pickle_load filename fs = Inr AddressBook_init) \<and>
   (\<forall>e. fs filename = Some (Refused e) \<and> e \<noteq> FileNotFoundError \<longrightarrow>
      load_data pickle_load filename fs = Inl e) \<and>
   (\<forall>bs e. fs filename = Some (Regular bs) \<and> pickle_load bs = Inl e \<and>
      e \<noteq> FileNotFoundError \<longrightarrow>
      load_data pickle_load filename fs = Inl e)"
proof (intro conjI allI impI)
  assume "fs filename = None"
  then show "load_data pickle_load filename fs = Inr AddressBook_init"
    by (simp add: load_data_def open_rb_def)
next
  fix e assume "fs filename = Some (Refused e) \<and> e \<noteq> FileNotFoundError"
  then show "load_data pickle_load filename fs = Inl e"
    by (cases e) (simp_all add: load_data_def open_rb_def)
next
  fix bs e
  assume "fs filename = Some (Regular bs) \<and> pickle_load bs = Inl e \<and> e \<noteq> FileNotFoundError"
  then show "load_data pickle_load filename fs = Inl e"
    by (cases e) (simp_all add: load_data_def open_rb_def)
qed

theorem load_data_errors_witness:
  "load_data (\<lambda>bs. Inl (OtherError ''UnpicklingError'')) ''addressbook.pkl''
     [''locked.pkl'' \<mapsto> Refused (OtherError ''PermissionError''),
      ''broken.pkl'' \<mapsto> Regular [1, 2, 3]] = Inr AddressBook_init \<and>
   load_data (\<lambda>bs. Inl (OtherError ''UnpicklingError'')) ''locked.pkl''
     [''locked.pkl'' \<mapsto> Refused (OtherError ''PermissionError''),
      ''broken.pkl'' \<mapsto> Regular [1, 2, 3]] = Inl (OtherError ''PermissionError'') \<and>
   load_data (\<lambda>bs. Inl (OtherError ''UnpicklingError'')) ''broken.pkl''
     [''locked.pkl'' \<mapsto> Refused (OtherError ''PermissionError''),
      ''broken.pkl'' \<mapsto> Regular [1, 2, 3]] = Inl (OtherError ''UnpicklingError'')"
proof -
  let ?fs = "[''locked.pkl'' \<mapsto> Refused (OtherError ''PermissionError''),
              ''broken.pkl'' \<mapsto> Regular [1, 2, 3]]"
  let ?pl = "\<lambda>bs :: bytes. (Inl (OtherError ''UnpicklingError'') :: error + AddressBook)"
  from load_data_errors [of ?fs "''addressbook.pkl''" ?pl]
  have a: "load_data ?pl ''addressbook.pkl'' ?fs = Inr AddressBook_init"
    by simp
  from load_data_errors [of ?fs "''locked.pkl''" ?pl]
  have b: "load_data ?pl ''locked.pkl'' ?fs = Inl (OtherError ''PermissionError'')"
    by simp
  from load_data_errors [of ?fs "''broken.pkl''" ?pl]
  have c: "load_data ?pl ''broken.pkl'' ?fs = Inl (OtherError ''UnpicklingError'')"
    by simp
  from a b c show ?thesis by simp
qed

end
